theory Spec2Isabelle
  imports Main "HOL-Library.Word" "HOL-Library.Sublist"
begin

unbundle bit_operations_syntax

section \<open>Machine model\<close>

text \<open>
  EasySandbox.c is written for Linux with \<^verbatim>\<open>unsigned long\<close> and pointers of 64 bits
  (LP64): addresses and \<^verbatim>\<open>ulong\<close> values are 64-bit words whose arithmetic wraps, and
  memory is an array of bytes indexed by address. A \<^verbatim>\<open>mem_header_t\<close> occupies 16 bytes:
  the \<^verbatim>\<open>next\<close> pointer at offset 0 and the \<^verbatim>\<open>size\<close> field at offset 8, both stored
  little-endian.
\<close>

type_synonym addr = "64 word"
type_synonym byte = "8 word"
type_synonym ulong = "64 word"
type_synonym memory = "addr \<Rightarrow> byte"

definition byte_of :: "ulong \<Rightarrow> nat \<Rightarrow> byte" where
  "byte_of v i = ucast (drop_bit (8 * i) v)"

definition word_of_bytes :: "(nat \<Rightarrow> byte) \<Rightarrow> ulong" where
  "word_of_bytes f =
     ucast (f 0) OR push_bit 8 (ucast (f 1)) OR push_bit 16 (ucast (f 2))
     OR push_bit 24 (ucast (f 3)) OR push_bit 32 (ucast (f 4))
     OR push_bit 40 (ucast (f 5)) OR push_bit 48 (ucast (f 6))
     OR push_bit 56 (ucast (f 7))"

definition load64 :: "memory \<Rightarrow> addr \<Rightarrow> ulong" where
  "load64 m a = word_of_bytes (\<lambda>i. m (a + of_nat i))"

definition store64 :: "memory \<Rightarrow> addr \<Rightarrow> ulong \<Rightarrow> memory" where
  "store64 m a v = (\<lambda>x. if x - a < 8 then byte_of v (unat (x - a)) else m x)"

text \<open>\<^verbatim>\<open>sizeof(mem_header_t)\<close> and the accessors of the two header fields.\<close>

definition HDR :: ulong where
  "HDR = 16"

definition MIN_POOL_ALLOC_QUANTAS :: ulong where
  "MIN_POOL_ALLOC_QUANTAS = 16"

definition hdr_next :: "memory \<Rightarrow> addr \<Rightarrow> addr" where
  "hdr_next m p = load64 m p"

definition hdr_size :: "memory \<Rightarrow> addr \<Rightarrow> ulong" where
  "hdr_size m p = load64 m (p + 8)"

definition set_next :: "memory \<Rightarrow> addr \<Rightarrow> addr \<Rightarrow> memory" where
  "set_next m p v = store64 m p v"

definition set_size :: "memory \<Rightarrow> addr \<Rightarrow> ulong \<Rightarrow> memory" where
  "set_size m p v = store64 m (p + 8) v"

text \<open>Pointer arithmetic on \<^verbatim>\<open>mem_header_t*\<close>: \<^verbatim>\<open>p + n\<close> advances by \<open>n\<close> headers.\<close>

definition hdr_plus :: "addr \<Rightarrow> ulong \<Rightarrow> addr" where
  "hdr_plus p n = p + HDR * n"

section \<open>The allocator state\<close>

text \<open>
  The static variables of the memory manager. \<open>base\<close> is the address of the static
  header \<^verbatim>\<open>base\<close>, whose two fields live in \<open>mem\<close> like every other header (the
  code reaches it through \<^verbatim>\<open>mem_header_t*\<close> pointers and compares its address with
  addresses inside the pool).
\<close>

record memmgr =
  mem :: memory
  base :: addr
  freep :: addr
  pool :: addr
  POOL_SIZE :: ulong
  pool_free_pos :: ulong

definition memmgr_init :: "memmgr \<Rightarrow> addr \<Rightarrow> ulong \<Rightarrow> memmgr" where
  "memmgr_init s pool0 pool_size =
     s\<lparr>pool := pool0, POOL_SIZE := pool_size,
       mem := set_size (set_next (mem s) (base s) 0) (base s) 0,
       freep := 0, pool_free_pos := 0\<rparr>"

section \<open>memmgr\_free\<close>

text \<open>
  The scan of \<^verbatim>\<open>memmgr_free\<close> for the insertion point. The C loop has no bound, so the
  model is a partial function: \<open>None\<close> is a scan that never ends.
\<close>

partial_function (option) free_scan :: "memory \<Rightarrow> addr \<Rightarrow> addr \<Rightarrow> addr option" where
  "free_scan m block p =
     (if block > p \<and> block < hdr_next m p then Some p
      else if p \<ge> hdr_next m p \<and> (block > p \<or> block < hdr_next m p) then Some p
      else free_scan m block (hdr_next m p))"

declare free_scan.simps [code]

definition join_upper :: "memory \<Rightarrow> addr \<Rightarrow> addr \<Rightarrow> memory" where
  "join_upper m block p =
     (if hdr_plus block (hdr_size m block) = hdr_next m p then
        (let m1 = set_size m block (hdr_size m block + hdr_size m (hdr_next m p))
         in set_next m1 block (hdr_next m1 (hdr_next m1 p)))
      else set_next m block (hdr_next m p))"

definition join_lower :: "memory \<Rightarrow> addr \<Rightarrow> addr \<Rightarrow> memory" where
  "join_lower m block p =
     (if hdr_plus p (hdr_size m p) = block then
        (let m1 = set_size m p (hdr_size m p + hdr_size m block)
         in set_next m1 p (hdr_next m1 block))
      else set_next m p block)"

definition memmgr_free :: "memmgr \<Rightarrow> addr \<Rightarrow> memmgr option" where
  "memmgr_free s ap =
     (let block = ap - HDR in
      case free_scan (mem s) block (freep s) of
        None \<Rightarrow> None
      | Some p \<Rightarrow> Some (s\<lparr>mem := join_lower (join_upper (mem s) block p) block p, freep := p\<rparr>))"

section \<open>memmgr\_alloc\<close>

definition get_mem_from_pool :: "memmgr \<Rightarrow> ulong \<Rightarrow> (addr \<times> memmgr) option" where
  "get_mem_from_pool s nquantas0 =
     (let nquantas = (if nquantas0 < MIN_POOL_ALLOC_QUANTAS then MIN_POOL_ALLOC_QUANTAS else nquantas0);
          total_req_size = nquantas * HDR
      in if pool_free_pos s + total_req_size \<le> POOL_SIZE s then
           (let h = pool s + pool_free_pos s;
                s1 = s\<lparr>mem := set_size (mem s) h nquantas\<rparr>
            in case memmgr_free s1 (hdr_plus h 1) of
                 None \<Rightarrow> None
               | Some s2 \<Rightarrow>
                   (let s3 = s2\<lparr>pool_free_pos := pool_free_pos s2 + total_req_size\<rparr>
                    in Some (freep s3, s3)))
         else Some (0, s))"

definition nquantas_of :: "ulong \<Rightarrow> ulong" where
  "nquantas_of nbytes = (nbytes + HDR - 1) div HDR + 1"

text \<open>
  The search loop of \<^verbatim>\<open>memmgr_alloc\<close>, with the loop variables \<open>prevp\<close> and \<open>p\<close> as
  arguments. Like the scan of \<^verbatim>\<open>memmgr_free\<close> it has no bound in the source.
\<close>

partial_function (option) alloc_loop ::
    "memmgr \<Rightarrow> ulong \<Rightarrow> addr \<Rightarrow> addr \<Rightarrow> (addr \<times> memmgr) option" where
  "alloc_loop s nquantas prevp p =
     (if hdr_size (mem s) p \<ge> nquantas then
        (if hdr_size (mem s) p = nquantas then
           Some (hdr_plus p 1,
                 s\<lparr>mem := set_next (mem s) prevp (hdr_next (mem s) p), freep := prevp\<rparr>)
         else
           (let m1 = set_size (mem s) p (hdr_size (mem s) p - nquantas);
                p' = hdr_plus p (hdr_size m1 p);
                m2 = set_size m1 p' nquantas
            in Some (hdr_plus p' 1, s\<lparr>mem := m2, freep := prevp\<rparr>)))
      else if p = freep s then
        (case get_mem_from_pool s nquantas of
           None \<Rightarrow> None
         | Some (p2, s2) \<Rightarrow>
             if p2 = 0 then Some (0, s2)
             else alloc_loop s2 nquantas p2 (hdr_next (mem s2) p2))
      else alloc_loop s nquantas p (hdr_next (mem s) p))"

declare alloc_loop.simps [code]

definition seed_free_list :: "memmgr \<Rightarrow> memmgr" where
  "seed_free_list s =
     (if freep s = 0 then
        s\<lparr>mem := set_size (set_next (mem s) (base s) (base s)) (base s) 0, freep := base s\<rparr>
      else s)"

definition memmgr_alloc :: "memmgr \<Rightarrow> ulong \<Rightarrow> (addr \<times> memmgr) option" where
  "memmgr_alloc s nbytes =
     (let nquantas = nquantas_of nbytes;
          s1 = seed_free_list s;
          prevp = freep s1
      in alloc_loop s1 nquantas prevp (hdr_next (mem s1) prevp))"

definition memmgr_get_block_size :: "memmgr \<Rightarrow> addr \<Rightarrow> ulong" where
  "memmgr_get_block_size s ap = hdr_size (mem s) (ap - HDR)"

section \<open>The C library entry points\<close>

definition malloc :: "memmgr \<Rightarrow> ulong \<Rightarrow> (addr \<times> memmgr) option" where
  "malloc s sz = memmgr_alloc s sz"

definition free :: "memmgr \<Rightarrow> addr \<Rightarrow> memmgr option" where
  "free s ptr = memmgr_free s ptr"

text \<open>The loop \<^verbatim>\<open>for (p = buf; p < buf + (nmemb * size); p++) *p = 0\<close>.\<close>

function zero_loop :: "memory \<Rightarrow> addr \<Rightarrow> addr \<Rightarrow> memory" where
  "zero_loop m p e = (if p < e then zero_loop (m(p := 0)) (p + 1) e else m)"
  by pat_completeness auto
termination
proof (relation "measure (\<lambda>(m, p, e). unat e - unat p)")
  show "wf (measure (\<lambda>(m, p, e). unat e - unat p))" by simp
next
  fix m :: memory and p e :: addr
  assume "p < e"
  then have lt: "unat p < unat e" by (simp add: word_less_nat_alt)
  moreover have "unat e < 2 ^ 64" using unsigned_less [of e] by simp
  ultimately have "unat p + unat (1 :: addr) < 2 ^ LENGTH(64)" by simp
  then have "unat (p + 1) = unat p + 1" by (simp add: unat_add_lem [THEN iffD1])
  with lt show "((m(p := 0), p + 1, e), (m, p, e)) \<in> measure (\<lambda>(m, p, e). unat e - unat p)"
    by simp
qed

declare zero_loop.simps [simp del]

definition calloc :: "memmgr \<Rightarrow> ulong \<Rightarrow> ulong \<Rightarrow> (addr \<times> memmgr) option" where
  "calloc s nmemb sz =
     (case malloc s (nmemb * sz) of
        None \<Rightarrow> None
      | Some (buf, s1) \<Rightarrow>
          if buf \<noteq> 0 then Some (buf, s1\<lparr>mem := zero_loop (mem s1) buf (buf + nmemb * sz)\<rparr>)
          else Some (buf, s1))"

text \<open>The loop \<^verbatim>\<open>for (i = 0; i < to_copy; i++) *dst++ = *src++\<close>.\<close>

function copy_loop :: "memory \<Rightarrow> addr \<Rightarrow> addr \<Rightarrow> ulong \<Rightarrow> ulong \<Rightarrow> memory" where
  "copy_loop m dst src i to_copy =
     (if i < to_copy then copy_loop (m(dst := m src)) (dst + 1) (src + 1) (i + 1) to_copy else m)"
  by pat_completeness auto
termination
proof (relation "measure (\<lambda>(m, dst, src, i, n). unat n - unat i)")
  show "wf (measure (\<lambda>(m, dst, src, i, n). unat n - unat i))" by simp
next
  fix m :: memory and dst src :: addr and i n :: ulong
  assume "i < n"
  then have lt: "unat i < unat n" by (simp add: word_less_nat_alt)
  moreover have "unat n < 2 ^ 64" using unsigned_less [of n] by simp
  ultimately have "unat i + unat (1 :: ulong) < 2 ^ LENGTH(64)" by simp
  then have "unat (i + 1) = unat i + 1" by (simp add: unat_add_lem [THEN iffD1])
  with lt show "((m(dst := m src), dst + 1, src + 1, i + 1, n), (m, dst, src, i, n))
      \<in> measure (\<lambda>(m, dst, src, i, n). unat n - unat i)"
    by simp
qed

declare copy_loop.simps [simp del]

definition realloc :: "memmgr \<Rightarrow> addr \<Rightarrow> ulong \<Rightarrow> (addr \<times> memmgr) option" where
  "realloc s ptr sz =
     (case malloc s sz of
        None \<Rightarrow> None
      | Some (buf, s1) \<Rightarrow>
          if buf \<noteq> 0 then
            (let alloc_size = memmgr_get_block_size s1 ptr;
                 to_copy = (if alloc_size > sz then sz else alloc_size);
                 s2 = s1\<lparr>mem := copy_loop (mem s1) buf ptr 0 to_copy\<rparr>
             in case free s2 ptr of
                  None \<Rightarrow> None
                | Some s3 \<Rightarrow> Some (buf, s3))
          else Some (buf, s1))"

section \<open>The wrapper for main\<close>

text \<open>
  What \<^verbatim>\<open>main\<close> cannot decide itself is an input: the value \<^verbatim>\<open>mmap\<close> returns, the value
  \<^verbatim>\<open>prctl\<close> returns, and the exit status of the untrusted \<^verbatim>\<open>realmain\<close>, which starts
  on the allocator state that \<^verbatim>\<open>memmgr_init\<close> leaves. The result is the list of steps
  taken, in order, and how the process ends.
\<close>

definition DEFAULT_HEAP_SIZE :: ulong where
  "DEFAULT_HEAP_SIZE = 1024 * 1024"

definition SECCOMP_ERROR :: int where
  "SECCOMP_ERROR = 17"

definition MMAP_FAILED_ERROR :: int where
  "MMAP_FAILED_ERROR = 18"

definition MAP_FAILED :: addr where
  "MAP_FAILED = - 1"

datatype step = Mmap | Memmgr_init | Prctl | Realmain

datatype ending = Exit int | Return int

record environment =
  mmap_result :: addr
  prctl_result :: int
  realmain :: "memmgr \<Rightarrow> int"

definition main :: "environment \<Rightarrow> memmgr \<Rightarrow> step list \<times> ending" where
  "main env s0 =
     (let heapsize = DEFAULT_HEAP_SIZE;
          heap = mmap_result env
      in if heap = MAP_FAILED then ([Mmap], Exit MMAP_FAILED_ERROR)
         else
           (let s = memmgr_init s0 heap heapsize
            in if prctl_result env < 0 then ([Mmap, Memmgr_init, Prctl], Exit SECCOMP_ERROR)
               else ([Mmap, Memmgr_init, Prctl, Realmain], Return (realmain env s))))"

section \<open>Notions used in the statements\<close>

text \<open>Two 8-byte cells are disjoint when neither starts within the 7 bytes after the other.\<close>

definition cells_disj :: "addr \<Rightarrow> addr \<Rightarrow> bool" where
  "cells_disj a b \<longleftrightarrow> 8 \<le> b - a \<and> 8 \<le> a - b"

text \<open>The memory \<open>m\<close> with the \<open>n\<close> bytes from \<open>buf\<close> on set to zero.\<close>

definition zero_range :: "memory \<Rightarrow> addr \<Rightarrow> nat \<Rightarrow> memory" where
  "zero_range m buf n = (\<lambda>a. if unat (a - buf) < n then 0 else m a)"

text \<open>
  A concrete process image for the examples: zero-filled memory, the static header
  \<^verbatim>\<open>base\<close> at address \<open>0x1000\<close>, and the state after \<^verbatim>\<open>memmgr_init\<close> on a pool of
  \<^verbatim>\<open>DEFAULT_HEAP_SIZE\<close> bytes mapped at \<open>0x100000\<close>.
\<close>

definition boot :: memmgr where
  "boot = \<lparr>mem = (\<lambda>_. 0), base = 0x1000, freep = 0, pool = 0, POOL_SIZE = 0, pool_free_pos = 0\<rparr>"

definition heap0 :: memmgr where
  "heap0 = memmgr_init boot 0x100000 DEFAULT_HEAP_SIZE"

text \<open>The caller writes one byte into memory.\<close>

definition poke :: "memmgr \<Rightarrow> addr \<Rightarrow> byte \<Rightarrow> memmgr" where
  "poke s a v = s\<lparr>mem := (mem s)(a := v)\<rparr>"

text \<open>Two headers are separated when each starts at least 16 bytes after the other
  (modulo the address space), so that no field of one shares a byte with a field of the other.\<close>

definition hdr_sep :: "addr \<Rightarrow> addr \<Rightarrow> bool" where
  "hdr_sep p q \<longleftrightarrow> 16 \<le> q - p \<and> 16 \<le> p - q"

text \<open>\<open>path m x as y\<close>: following the \<^verbatim>\<open>next\<close> fields from \<open>x\<close> visits exactly the headers
  \<open>as\<close>, in this order, and arrives at \<open>y\<close>.\<close>

primrec path :: "memory \<Rightarrow> addr \<Rightarrow> addr list \<Rightarrow> addr \<Rightarrow> bool" where
  "path m x [] y \<longleftrightarrow> x = y"
| "path m x (a # as) y \<longleftrightarrow> x = a \<and> path m (hdr_next m a) as y"

text \<open>A hand-built heap: the free list is base, then a block of 8 quanta at the start of
  the pool, then a block of 2 quanta at offset 256; \<^verbatim>\<open>freep\<close> is the first pool block.\<close>

definition demo_heap :: memmgr where
  "demo_heap =
     \<lparr>mem = set_size (set_next (set_size (set_next (set_size (set_next (\<lambda>_. 0)
               0x1000 0x100000) 0x1000 0)
               0x100000 0x100100) 0x100000 8)
               0x100100 0x1000) 0x100100 2,
      base = 0x1000, freep = 0x100000, pool = 0x100000, POOL_SIZE = 0x100000,
      pool_free_pos = 0x200\<rparr>"

text \<open>
  The notions of a well-formed heap. \<open>blk_end m x\<close> is the address just after the block with
  header \<open>x\<close>, whose size field counts quanta of 16 bytes including the header. The layout
  assumed is the one of a Linux process: the static header \<^verbatim>\<open>base\<close> is not at address 0 and
  lies below the pool, the pool and one more header end below the top of the address
  space, and the cursor is a multiple of the quantum inside the pool.
\<close>

definition blk_end :: "memory \<Rightarrow> addr \<Rightarrow> nat" where
  "blk_end m x = unat x + 16 * unat (hdr_size m x)"

definition layout_ok :: "memmgr \<Rightarrow> bool" where
  "layout_ok s \<longleftrightarrow>
     base s \<noteq> 0 \<and> unat (base s) + 16 \<le> unat (pool s) \<and>
     unat (pool s) + unat (POOL_SIZE s) + 16 < 2 ^ 64 \<and>
     unat (pool_free_pos s) \<le> unat (POOL_SIZE s) \<and> 16 dvd unat (pool_free_pos s)"

definition in_pool :: "memmgr \<Rightarrow> addr \<Rightarrow> bool" where
  "in_pool s x \<longleftrightarrow>
     unat (pool s) \<le> unat x \<and> 16 dvd (unat x - unat (pool s)) \<and>
     0 < unat (hdr_size (mem s) x) \<and>
     blk_end (mem s) x \<le> unat (pool s) + unat (pool_free_pos s)"

definition apart :: "memory \<Rightarrow> addr \<Rightarrow> addr \<Rightarrow> bool" where
  "apart m x y \<longleftrightarrow> blk_end m x \<le> unat y \<or> blk_end m y \<le> unat x"

text \<open>
  \<open>heap_ok s bs al\<close>: the free list of \<open>s\<close> is the cycle \<^verbatim>\<open>base\<close>, then the blocks \<open>bs\<close> in
  increasing address order, then \<^verbatim>\<open>base\<close> again; \<^verbatim>\<open>freep\<close> is one of its members;
  \<open>al\<close> are the headers of the outstanding allocations; every block of \<open>bs\<close> and \<open>al\<close> lies
  in the carved part of the pool, has a positive size, and no two of them overlap.
\<close>

definition heap_ok :: "memmgr \<Rightarrow> addr list \<Rightarrow> addr list \<Rightarrow> bool" where
  "heap_ok s bs al \<longleftrightarrow>
     layout_ok s \<and>
     path (mem s) (base s) (base s # bs) (base s) \<and>
     hdr_size (mem s) (base s) = 0 \<and>
     freep s \<in> set (base s # bs) \<and>
     (\<forall>x\<in>set (bs @ al). in_pool s x) \<and>
     sorted_wrt (<) bs \<and>
     (\<forall>x\<in>set al. x \<notin> set bs) \<and>
     (\<forall>x\<in>set (bs @ al). \<forall>y\<in>set (bs @ al). x \<noteq> y \<longrightarrow> apart (mem s) x y)"

text \<open>An address at which the allocator may keep a header: \<^verbatim>\<open>base\<close>, or a multiple of the
  quantum from the start of the pool.\<close>

definition vhdr :: "memmgr \<Rightarrow> addr \<Rightarrow> bool" where
  "vhdr s x \<longleftrightarrow>
     x = base s \<or>
     (unat (pool s) \<le> unat x \<and> 16 dvd (unat x - unat (pool s)) \<and>
      unat x \<le> unat (pool s) + unat (POOL_SIZE s))"

text \<open>The quanta that \<^verbatim>\<open>get_mem_from_pool\<close> carves for a request of \<open>nq\<close> quanta:
  the larger of \<open>nq\<close> and \<^verbatim>\<open>MIN_POOL_ALLOC_QUANTAS\<close>.\<close>

definition carve_quanta :: "ulong \<Rightarrow> nat" where
  "carve_quanta nq = max (unat nq) 16"

text \<open>A second hand-built heap: one free block of 2 quanta at the start of the pool, then
  two outstanding blocks next to each other, of 3 quanta at offset \<open>0x20\<close> and of 11 quanta
  at offset \<open>0x50\<close>; the cursor is at \<open>0x100\<close>.\<close>

definition demo_heap2 :: memmgr where
  "demo_heap2 =
     \<lparr>mem = set_size (set_size (set_size (set_next (set_size (set_next (\<lambda>_. 0)
               0x1000 0x100000) 0x1000 0)
               0x100000 0x1000) 0x100000 2)
               0x100020 3) 0x100050 11,
      base = 0x1000, freep = 0x1000, pool = 0x100000, POOL_SIZE = 0x100000,
      pool_free_pos = 0x100\<rparr>"

section \<open>Memory lemmas\<close>

lemma word_of_bytes_byte_of: "word_of_bytes (byte_of v) = v"
proof (rule bit_word_eqI)
  fix n :: nat
  assume "n < LENGTH(64)"
  then consider "n < 8" | "8 \<le> n \<and> n < 16" | "16 \<le> n \<and> n < 24" | "24 \<le> n \<and> n < 32"
    | "32 \<le> n \<and> n < 40" | "40 \<le> n \<and> n < 48" | "48 \<le> n \<and> n < 56" | "56 \<le> n \<and> n < 64"
    by (simp, linarith)
  then show "bit (word_of_bytes (byte_of v)) n = bit v n"
    by cases (auto simp add: word_of_bytes_def byte_of_def bit_simps)
qed

lemma word_of_bytes_cong: "(\<And>i. i < 8 \<Longrightarrow> f i = g i) \<Longrightarrow> word_of_bytes f = word_of_bytes g"
  by (simp add: word_of_bytes_def)

lemma load64_store64_same: "load64 (store64 m a v) a = v"
proof -
  have "word_of_bytes (\<lambda>i. store64 m a v (a + of_nat i)) = word_of_bytes (byte_of v)"
    by (rule word_of_bytes_cong) (simp add: store64_def unat_of_nat word_less_nat_alt)
  then show ?thesis by (simp add: load64_def word_of_bytes_byte_of)
qed

lemma cells_disj_offset:
  fixes a b :: addr
  assumes "8 \<le> b - a" "8 \<le> a - b" "i < 8"
  shows "\<not> (b + of_nat i - a < 8)"
proof -
  define d where "d = b - a"
  have e: "b + of_nat i - a = d + of_nat i" "a - b = - d" by (simp_all add: d_def)
  have i: "unat (of_nat i :: 64 word) = i" using assms(3) by (simp add: unat_of_nat)
  have d8: "8 \<le> unat d" using assms(1) by (simp add: d_def word_le_nat_alt)
  have "8 \<le> unat (- d)" using assms(2) by (simp add: e word_le_nat_alt)
  moreover have "unat (0 - d) =
      (if unat d \<le> unat (0::64 word) then unat (0::64 word) - unat d
       else unat (0::64 word) + 2 ^ LENGTH(64) - unat d)"
    by (rule unat_sub_if')
  ultimately have "unat d + 8 \<le> 2 ^ 64" using d8
    by (simp split: if_splits)
  then have "unat (d + of_nat i) = unat d + i" using assms(3) i
    by (simp add: unat_plus_if')
  then show ?thesis using d8 by (simp add: e word_less_nat_alt)
qed

lemma load64_store64_other:
  assumes "cells_disj a b"
  shows "load64 (store64 m a v) b = load64 m b"
proof -
  have "store64 m a v (b + of_nat i) = m (b + of_nat i)" if "i < 8" for i
  proof -
    have "8 \<le> b - a" "8 \<le> a - b" using assms by (simp_all add: cells_disj_def)
    from cells_disj_offset [OF this that] show ?thesis by (simp add: store64_def)
  qed
  then show ?thesis
    unfolding load64_def by (intro word_of_bytes_cong) simp
qed

section \<open>Header fields\<close>

lemma word_ge_shift:
  fixes d :: "64 word"
  assumes "16 \<le> d" "16 \<le> - d"
  shows "8 \<le> d + 8" "8 \<le> - d - 8" "8 \<le> d - 8" "8 \<le> 8 - d"
proof -
  have d: "16 \<le> unat d" using assms(1) by (simp add: word_le_nat_alt)
  have "16 \<le> unat (- d)" using assms(2) by (simp add: word_le_nat_alt)
  moreover have "unat (0 - d) =
      (if unat d \<le> unat (0::64 word) then unat (0::64 word) - unat d
       else unat (0::64 word) + 2 ^ LENGTH(64) - unat d)"
    by (rule unat_sub_if')
  ultimately have u: "unat d + 16 \<le> 2 ^ 64" "unat (- d) = 2 ^ 64 - unat d" using d
    by (simp_all split: if_splits)
  have "unat (d + 8) = unat d + 8" using u(1) by (simp add: unat_plus_if')
  then show "8 \<le> d + 8" by (simp add: word_le_nat_alt)
  have "unat (d - 8) = unat d - 8" using d by (simp add: unat_sub_if')
  then show "8 \<le> d - 8" using d by (simp add: word_le_nat_alt)
  have "unat (- d - 8) = unat (- d) - 8" using u d by (simp add: unat_sub_if')
  then show "8 \<le> - d - 8" using u d by (simp add: word_le_nat_alt)
  have "unat (8 - d) = 8 + 2 ^ 64 - unat d" using d by (simp add: unat_sub_if')
  then show "8 \<le> 8 - d" using u by (simp add: word_le_nat_alt)
qed

lemma hdr_sep_cells:
  assumes "hdr_sep p q"
  shows "cells_disj p q" "cells_disj (p + 8) q" "cells_disj p (q + 8)" "cells_disj (p + 8) (q + 8)"
proof -
  define d where "d = q - p"
  have a: "16 \<le> d" "16 \<le> - d" using assms by (simp_all add: hdr_sep_def d_def)
  have e: "q - (p + 8) = d - 8" "p + 8 - q = 8 - d" "q + 8 - p = d + 8" "p - (q + 8) = - d - 8"
    "q + 8 - (p + 8) = d" "p + 8 - (q + 8) = - d" "p - q = - d"
    by (simp_all add: d_def)
  have "8 \<le> d" "8 \<le> - d" using a by (simp_all add: word_le_nat_alt)
  then show "cells_disj p q" "cells_disj (p + 8) (q + 8)"
    unfolding cells_disj_def e d_def [symmetric] by simp_all
  show "cells_disj (p + 8) q" "cells_disj p (q + 8)"
    unfolding cells_disj_def e d_def [symmetric] using word_ge_shift [OF a] by simp_all
qed

lemma cells_disj_fields: "cells_disj p (p + 8)" "cells_disj (p + 8) p"
  by (simp_all add: cells_disj_def)

lemma hdr_sep_sym: "hdr_sep p q \<Longrightarrow> hdr_sep q p"
  by (simp add: hdr_sep_def)

lemma next_set_next_same [simp]: "hdr_next (set_next m p v) p = v"
  by (simp add: hdr_next_def set_next_def load64_store64_same)

lemma size_set_size_same [simp]: "hdr_size (set_size m p v) p = v"
  by (simp add: hdr_size_def set_size_def load64_store64_same)

lemma size_set_next_same [simp]: "hdr_size (set_next m p v) p = hdr_size m p"
  by (simp add: hdr_size_def set_next_def load64_store64_other cells_disj_fields)

lemma next_set_size_same [simp]: "hdr_next (set_size m p v) p = hdr_next m p"
  by (simp add: hdr_next_def set_size_def load64_store64_other cells_disj_fields)

lemma fields_other:
  assumes "hdr_sep p q"
  shows "hdr_next (set_next m p v) q = hdr_next m q" "hdr_next (set_size m p v) q = hdr_next m q"
    "hdr_size (set_next m p v) q = hdr_size m q" "hdr_size (set_size m p v) q = hdr_size m q"
  using hdr_sep_cells [OF assms]
  by (simp_all add: hdr_next_def hdr_size_def set_next_def set_size_def load64_store64_other)

section \<open>The zero-fill loop\<close>

lemma unat_inc: fixes p e :: "64 word" assumes "p < e" shows "unat (p + 1) = unat p + 1"
proof -
  have "unat p < unat e" using assms by (simp add: word_less_nat_alt)
  moreover have "unat e < 2 ^ 64" using unsigned_less [of e] by simp
  ultimately have "unat p + unat (1 :: 64 word) < 2 ^ LENGTH(64)" by simp
  then show ?thesis by (simp add: unat_add_lem [THEN iffD1])
qed

lemma zero_loop_range:
  "p \<le> e \<Longrightarrow> zero_loop m p e = (\<lambda>a. if p \<le> a \<and> a < e then 0 else m a)"
proof (induction m p e rule: zero_loop.induct)
  case (1 m p e)
  show ?case
  proof (cases "p < e")
    case True
    have inc: "unat (p + 1) = unat p + 1" by (rule unat_inc [OF True])
    have le: "p + 1 \<le> e" using True inc by (simp add: word_le_nat_alt word_less_nat_alt)
    have "zero_loop m p e = zero_loop (m(p := 0)) (p + 1) e"
      using True by (subst zero_loop.simps) simp
    also have "\<dots> = (\<lambda>a. if p + 1 \<le> a \<and> a < e then 0 else (m(p := 0)) a)"
      by (rule "1.IH" [OF True le])
    also have "\<dots> = (\<lambda>a. if p \<le> a \<and> a < e then 0 else m a)"
      using True inc by (auto simp: fun_eq_iff word_le_nat_alt word_less_nat_alt word_unat_eq_iff)
    finally show ?thesis .
  next
    case False
    with "1.prems" have "p = e" by simp
    then show ?thesis by (subst zero_loop.simps) (auto simp: fun_eq_iff)
  qed
qed

lemma zero_loop_zero_range:
  fixes buf t :: "64 word"
  assumes "unat buf + unat t < 2 ^ 64"
  shows "zero_loop m buf (buf + t) = zero_range m buf (unat t)"
proof -
  have e: "unat (buf + t) = unat buf + unat t"
    using assms by (simp add: unat_add_lem [THEN iffD1])
  then have "buf \<le> buf + t" by (simp add: word_le_nat_alt)
  then have "zero_loop m buf (buf + t) = (\<lambda>a. if buf \<le> a \<and> a < buf + t then 0 else m a)"
    by (rule zero_loop_range)
  also have "\<dots> = zero_range m buf (unat t)"
    unfolding zero_range_def
  proof (rule ext)
    fix a :: "64 word"
    have "unat (a - buf) = (if unat buf \<le> unat a then unat a - unat buf else unat a + 2 ^ 64 - unat buf)"
      using unat_sub_if' [of a buf] by simp
    moreover have "unat a < 2 ^ 64" using unsigned_less [of a] by simp
    ultimately show "(if buf \<le> a \<and> a < buf + t then 0 else m a) = (if unat (a - buf) < unat t then 0 else m a)"
      using e assms by (auto simp: word_le_nat_alt word_less_nat_alt)
  qed
  finally show ?thesis .
qed

section \<open>The search loop of memmgr\_alloc\<close>

lemma alloc_loop_skip:
  assumes "hdr_size (mem s) p < nq" "p \<noteq> freep s"
  shows "alloc_loop s nq prevp p = alloc_loop s nq p (hdr_next (mem s) p)"
  using assms by (subst alloc_loop.simps) (simp add: not_le [symmetric])

lemma alloc_loop_walk:
  assumes "path (mem s) p xs q" "\<forall>a\<in>set xs. hdr_size (mem s) a < nq \<and> a \<noteq> freep s"
  shows "alloc_loop s nq prevp p = alloc_loop s nq (last (prevp # xs)) q"
  using assms
proof (induction xs arbitrary: prevp p)
  case Nil
  then show ?case by simp
next
  case (Cons a as)
  from Cons.prems have pa: "p = a" and rest: "path (mem s) (hdr_next (mem s) a) as q"
    and small: "hdr_size (mem s) a < nq" "a \<noteq> freep s"
    and others: "\<forall>b\<in>set as. hdr_size (mem s) b < nq \<and> b \<noteq> freep s"
    by simp_all
  have "alloc_loop s nq prevp p = alloc_loop s nq a (hdr_next (mem s) a)"
    unfolding pa by (rule alloc_loop_skip [OF small])
  also have "\<dots> = alloc_loop s nq (last (a # as)) q"
    by (rule Cons.IH [OF rest others])
  finally show ?case by simp
qed

lemma alloc_loop_exact:
  assumes "hdr_size (mem s) q = nq"
  shows "alloc_loop s nq prevp q =
    Some (hdr_plus q 1, s\<lparr>mem := set_next (mem s) prevp (hdr_next (mem s) q), freep := prevp\<rparr>)"
  using assms by (subst alloc_loop.simps) simp

lemma alloc_loop_split:
  assumes "nq < hdr_size (mem s) q"
  shows "alloc_loop s nq prevp q =
    Some (hdr_plus (hdr_plus q (hdr_size (mem s) q - nq)) 1,
          s\<lparr>mem := set_size (set_size (mem s) q (hdr_size (mem s) q - nq))
                     (hdr_plus q (hdr_size (mem s) q - nq)) nq,
            freep := prevp\<rparr>)"
proof -
  have "nq \<le> hdr_size (mem s) q" "hdr_size (mem s) q \<noteq> nq" using assms by simp_all
  then show ?thesis by (subst alloc_loop.simps) (simp add: Let_def)
qed

lemma nquantas_of_multiple:
  fixes k :: ulong
  assumes "unat k < 2 ^ 60"
  shows "nquantas_of (16 * k) = k + 1"
proof -
  have m: "unat (16 * k) = 16 * unat k"
    using assms unat_mult_lem [of 16 k] by simp
  have "unat (16 * k) + unat (15 :: ulong) < 2 ^ LENGTH(64)" using assms m by simp
  then have a: "unat (16 * k + 15) = 16 * unat k + 15"
    using m by (simp add: unat_add_lem [THEN iffD1])
  have "unat ((16 * k + 15) div 16) = unat k"
    by (simp add: unat_div a)
  then have "(16 * k + 15) div 16 = k" by (simp add: word_unat_eq_iff)
  moreover have "16 * k + HDR - 1 = 16 * k + 15" "HDR = 16" by (simp_all add: HDR_def)
  ultimately show ?thesis by (simp only: nquantas_of_def)
qed

lemma nquantas_of_covers:
  fixes n :: ulong
  assumes "unat n + 16 \<le> 2 ^ 64"
  shows "unat (nquantas_of n) = (unat n + 15) div 16 + 1"
proof -
  have "unat n + unat (15 :: ulong) < 2 ^ LENGTH(64)" using assms by simp
  then have a: "unat (n + 15) = unat n + 15" by (simp add: unat_add_lem [THEN iffD1])
  have d: "unat ((n + 15) div 16) = (unat n + 15) div 16" by (simp add: unat_div a)
  have "unat ((n + 15) div 16) + unat (1 :: ulong) < 2 ^ LENGTH(64)"
    using assms unfolding d by simp
  then have "unat ((n + 15) div 16 + 1) = (unat n + 15) div 16 + 1"
    using d by (simp add: unat_add_lem [THEN iffD1])
  moreover have "n + HDR - 1 = n + 15" "HDR = 16" by (simp_all add: HDR_def)
  ultimately show ?thesis by (simp only: nquantas_of_def)
qed

lemma unat_neg:
  fixes x :: "64 word"
  assumes "x \<noteq> 0"
  shows "unat (- x) = 2 ^ 64 - unat x"
proof -
  have "unat (0 - x) =
      (if unat x \<le> unat (0::64 word) then unat (0::64 word) - unat x
       else unat (0::64 word) + 2 ^ LENGTH(64) - unat x)"
    by (rule unat_sub_if')
  moreover have "0 < unat x" using assms by (simp add: unat_gt_0)
  ultimately show ?thesis by simp
qed

lemma split_readback:
  fixes q :: addr and sz nq :: ulong
  assumes "nq < sz" "unat sz < 2 ^ 60"
  shows "hdr_sep q (q + 16 * (sz - nq))"
proof -
  define r where "r = sz - nq"
  have r: "unat r = unat sz - unat nq" "0 < unat r"
    using assms(1) by (simp_all add: r_def unat_sub_if' word_less_nat_alt)
  then have r60: "unat r < 2 ^ 60" using assms(2) by simp
  then have m: "unat (16 * r) = 16 * unat r"
    using unat_mult_lem [of 16 r] by simp
  then have "16 * r \<noteq> 0" using r by (simp add: word_unat_eq_iff)
  then have "unat (- (16 * r)) = 2 ^ 64 - 16 * unat r"
    using m by (simp add: unat_neg)
  then have "16 \<le> unat (16 * r)" "16 \<le> unat (- (16 * r))"
    using r r60 m by simp_all
  then show ?thesis
    by (simp add: hdr_sep_def r_def [symmetric] word_le_nat_alt)
qed

text \<open>
  The quanta count of a request is \<open>(nbytes + 15) div 16 + 1\<close>: for an exact
  multiple \<open>16 * k\<close> of the quantum it is \<open>k + 1\<close>, the header and exactly \<open>k\<close> quanta of
  payload, and as long as \<open>nbytes + 16\<close> does not wrap it covers the header plus the payload
  with less than one quantum to spare. The search starts at the successor of \<^verbatim>\<open>freep\<close> with
  \<^verbatim>\<open>freep\<close> as predecessor (next fit). From any point of the walk, passing the blocks
  \<open>xs\<close> that are too small and are not \<^verbatim>\<open>freep\<close>, the first block \<open>q\<close> that is large enough
  is taken: when its size is exactly the quanta count, the predecessor's link is set to
  \<open>q\<close>'s successor and \<open>q + 1\<close> is returned; when it is larger, its size field is reduced by
  the quanta count, the returned block is carved at \<open>q\<close> plus the remaining size, which is
  the high end of \<open>q\<close>, and gets the quanta count as its size, and \<open>q\<close> keeps its address
  and its link. In both cases \<^verbatim>\<open>freep\<close> becomes the predecessor.
\<close>

lemma alloc_search:
  fixes s t :: memmgr and n nq k :: ulong
  shows
  "(unat k < 2 ^ 60 \<longrightarrow> nquantas_of (16 * k) = k + 1) \<and>
   (unat n + 16 \<le> 2 ^ 64 \<longrightarrow>
      unat n + 16 \<le> 16 * unat (nquantas_of n) \<and> 16 * unat (nquantas_of n) < unat n + 32) \<and>
   malloc s n =
     alloc_loop (seed_free_list s) (nquantas_of n) (freep (seed_free_list s))
       (hdr_next (mem (seed_free_list s)) (freep (seed_free_list s))) \<and>
   (path (mem t) p xs q \<and> (\<forall>a\<in>set xs. hdr_size (mem t) a < nq \<and> a \<noteq> freep t) \<and>
    hdr_size (mem t) q = nq \<longrightarrow>
      alloc_loop t nq prevp p =
        Some (q + 16, t\<lparr>mem := set_next (mem t) (last (prevp # xs)) (hdr_next (mem t) q),
                         freep := last (prevp # xs)\<rparr>)) \<and>
   (path (mem t) p xs q \<and> (\<forall>a\<in>set xs. hdr_size (mem t) a < nq \<and> a \<noteq> freep t) \<and>
    nq < hdr_size (mem t) q \<longrightarrow>
      (let r = q + 16 * (hdr_size (mem t) q - nq);
           t' = t\<lparr>mem := set_size (set_size (mem t) q (hdr_size (mem t) q - nq)) r nq,
                   freep := last (prevp # xs)\<rparr>
       in alloc_loop t nq prevp p = Some (r + 16, t') \<and>
          hdr_size (mem t') r = nq \<and>
          r + 16 * nq = q + 16 * hdr_size (mem t) q \<and>
          (unat (hdr_size (mem t) q) < 2 ^ 60 \<longrightarrow>
             hdr_size (mem t') q = hdr_size (mem t) q - nq \<and>
             hdr_next (mem t') q = hdr_next (mem t) q)))"
proof (intro conjI impI)
  show "nquantas_of (16 * k) = k + 1" if "unat k < 2 ^ 60"
    by (rule nquantas_of_multiple [OF that])
next
  assume a: "unat n + 16 \<le> 2 ^ 64"
  have e: "unat (nquantas_of n) = (unat n + 15) div 16 + 1"
    by (rule nquantas_of_covers [OF a])
  show "unat n + 16 \<le> 16 * unat (nquantas_of n)" unfolding e by arith
  show "16 * unat (nquantas_of n) < unat n + 32" unfolding e by arith
next
  show "malloc s n =
     alloc_loop (seed_free_list s) (nquantas_of n) (freep (seed_free_list s))
       (hdr_next (mem (seed_free_list s)) (freep (seed_free_list s)))"
    by (simp add: malloc_def memmgr_alloc_def Let_def)
next
  assume a: "path (mem t) p xs q \<and> (\<forall>a\<in>set xs. hdr_size (mem t) a < nq \<and> a \<noteq> freep t) \<and>
    hdr_size (mem t) q = nq"
  then have "alloc_loop t nq prevp p = alloc_loop t nq (last (prevp # xs)) q"
    by (intro alloc_loop_walk) simp_all
  also have "\<dots> = Some (hdr_plus q 1,
      t\<lparr>mem := set_next (mem t) (last (prevp # xs)) (hdr_next (mem t) q),
        freep := last (prevp # xs)\<rparr>)"
    using a by (intro alloc_loop_exact) simp
  finally show "alloc_loop t nq prevp p =
        Some (q + 16, t\<lparr>mem := set_next (mem t) (last (prevp # xs)) (hdr_next (mem t) q),
                         freep := last (prevp # xs)\<rparr>)"
    by (simp add: hdr_plus_def HDR_def)
next
  assume a: "path (mem t) p xs q \<and> (\<forall>a\<in>set xs. hdr_size (mem t) a < nq \<and> a \<noteq> freep t) \<and>
    nq < hdr_size (mem t) q"
  define r where "r = q + 16 * (hdr_size (mem t) q - nq)"
  define t' where "t' = t\<lparr>mem := set_size (set_size (mem t) q (hdr_size (mem t) q - nq)) r nq,
                 freep := last (prevp # xs)\<rparr>"
  from a have "alloc_loop t nq prevp p = alloc_loop t nq (last (prevp # xs)) q"
    by (intro alloc_loop_walk) simp_all
  also have "\<dots> = Some (hdr_plus (hdr_plus q (hdr_size (mem t) q - nq)) 1,
          t\<lparr>mem := set_size (set_size (mem t) q (hdr_size (mem t) q - nq))
                     (hdr_plus q (hdr_size (mem t) q - nq)) nq,
            freep := last (prevp # xs)\<rparr>)"
    using a by (intro alloc_loop_split) simp
  finally have res: "alloc_loop t nq prevp p = Some (r + 16, t')"
    by (simp add: hdr_plus_def HDR_def r_def t'_def)
  have sz: "hdr_size (mem t') r = nq" by (simp add: t'_def)
  have hi: "r + 16 * nq = q + 16 * hdr_size (mem t) q"
    by (simp add: r_def algebra_simps)
  have keep: "hdr_size (mem t') q = hdr_size (mem t) q - nq \<and> hdr_next (mem t') q = hdr_next (mem t) q"
    if "unat (hdr_size (mem t) q) < 2 ^ 60"
  proof -
    have "hdr_sep q r" unfolding r_def using a that by (intro split_readback) simp_all
    then have "hdr_sep r q" by (rule hdr_sep_sym)
    then show ?thesis by (simp add: t'_def fields_other)
  qed
  show "let r = q + 16 * (hdr_size (mem t) q - nq);
           t' = t\<lparr>mem := set_size (set_size (mem t) q (hdr_size (mem t) q - nq)) r nq,
                   freep := last (prevp # xs)\<rparr>
       in alloc_loop t nq prevp p = Some (r + 16, t') \<and>
          hdr_size (mem t') r = nq \<and>
          r + 16 * nq = q + 16 * hdr_size (mem t) q \<and>
          (unat (hdr_size (mem t) q) < 2 ^ 60 \<longrightarrow>
             hdr_size (mem t') q = hdr_size (mem t) q - nq \<and>
             hdr_next (mem t') q = hdr_next (mem t) q)"
    unfolding Let_def r_def [symmetric] t'_def [symmetric]
    using res sz hi keep by blast
qed

text \<open>An instance: the walk over the hand-built heap from its \<^verbatim>\<open>freep\<close>: over the block of 2 quanta
  and over \<^verbatim>\<open>base\<close> to the block of 8 quanta, once for 8 quanta and once for 5.\<close>

lemma demo_facts:
  "freep demo_heap = 0x100000 \<and> hdr_next (mem demo_heap) 0x100000 = 0x100100 \<and>
   hdr_next (mem demo_heap) 0x100100 = 0x1000 \<and> hdr_next (mem demo_heap) 0x1000 = 0x100000 \<and>
   hdr_size (mem demo_heap) 0x100100 = 2 \<and> hdr_size (mem demo_heap) 0x1000 = 0 \<and>
   hdr_size (mem demo_heap) 0x100000 = 8"
  by code_simp

lemma alloc_search_demo:
  "nquantas_of (16 * 3) = 4 \<and> 100 + 16 \<le> 16 * unat (nquantas_of 100) \<and>
   alloc_loop demo_heap 8 0x100000 0x100100 =
     Some (0x100010, demo_heap\<lparr>mem := set_next (mem demo_heap) 0x1000 0x100100, freep := 0x1000\<rparr>) \<and>
   alloc_loop demo_heap 5 0x100000 0x100100 =
     Some (0x100040, demo_heap\<lparr>mem := set_size (set_size (mem demo_heap) 0x100000 3) 0x100030 5,
                                    freep := 0x1000\<rparr>)"
proof -
  have walk: "path (mem demo_heap) 0x100100 [0x100100, 0x1000] 0x100000"
    and small8: "\<forall>a\<in>set [0x100100, 0x1000]. hdr_size (mem demo_heap) a < 8 \<and> a \<noteq> freep demo_heap"
    and small5: "\<forall>a\<in>set [0x100100, 0x1000]. hdr_size (mem demo_heap) a < 5 \<and> a \<noteq> freep demo_heap"
    and sz: "hdr_size (mem demo_heap) 0x100000 = 8" "(5 :: ulong) < hdr_size (mem demo_heap) 0x100000"
    and k: "unat (3 :: ulong) < 2 ^ 60" "unat (100 :: ulong) + 16 \<le> 2 ^ 64"
    using demo_facts by simp_all
  note exact = alloc_search [of 3 100 heap0 demo_heap "0x100100" "[0x100100, 0x1000]" "0x100000"
      8 "0x100000"]
  note split = alloc_search [of 3 100 heap0 demo_heap "0x100100" "[0x100100, 0x1000]" "0x100000"
      5 "0x100000"]
  from exact k walk small8 sz(1) split small5 sz(2) demo_facts show ?thesis
    by (simp add: Let_def)
qed

section \<open>Paths and the scan of memmgr\_free\<close>

lemma path_append: "path m x (as @ bs) z \<longleftrightarrow> (\<exists>y. path m x as y \<and> path m y bs z)"
  by (induction as arbitrary: x) auto

lemma path_start: "path m x as y \<Longrightarrow> x = hd (as @ [y])"
  by (cases as) auto

lemma path_frame:
  assumes "\<forall>a\<in>set as. hdr_next m' a = hdr_next m a"
  shows "path m' x as y = path m x as y"
  using assms by (induction as arbitrary: x) auto

lemma free_scan_skip:
  assumes "\<not> (p < b \<and> b < hdr_next m p)" "\<not> (hdr_next m p \<le> p \<and> (p < b \<or> b < hdr_next m p))"
  shows "free_scan m b p = free_scan m b (hdr_next m p)"
  using assms by (subst free_scan.simps) auto

lemma free_scan_between:
  assumes "p < b" "b < hdr_next m p"
  shows "free_scan m b p = Some p"
  using assms by (subst free_scan.simps) simp

lemma free_scan_wrap:
  assumes "hdr_next m p \<le> p" "p < b \<or> b < hdr_next m p"
  shows "free_scan m b p = Some p"
  using assms by (subst free_scan.simps) simp

lemma scan_run:
  assumes "path m x xs y" "sorted_wrt (<) (xs @ [y])"
    "(\<forall>a\<in>set (xs @ [y]). a < b) \<or> (\<forall>a\<in>set (xs @ [y]). b < a)"
  shows "free_scan m b x = free_scan m b y"
  using assms
proof (induction xs arbitrary: x)
  case Nil
  then show ?case by simp
next
  case (Cons a as)
  from Cons.prems(1) have xa: "x = a" and rest: "path m (hdr_next m a) as y" by simp_all
  have nx: "hdr_next m a = hd (as @ [y])" by (rule path_start [OF rest])
  have nmem: "hdr_next m a \<in> set (as @ [y])" unfolding nx by (cases as) simp_all
  have lt: "a < hdr_next m a" using Cons.prems(2) nmem by auto
  have side: "hdr_next m a < b \<or> b < a"
    using Cons.prems(3) nmem by auto
  have s1: "\<not> (a < b \<and> b < hdr_next m a)" using side lt by auto
  have s2: "\<not> (hdr_next m a \<le> a \<and> (a < b \<or> b < hdr_next m a))" using lt by auto
  have "free_scan m b a = free_scan m b (hdr_next m a)" by (rule free_scan_skip [OF s1 s2])
  also have "\<dots> = free_scan m b y"
  proof (rule Cons.IH [OF rest])
    show "sorted_wrt (<) (as @ [y])" using Cons.prems(2) by simp
    show "(\<forall>a\<in>set (as @ [y]). a < b) \<or> (\<forall>a\<in>set (as @ [y]). b < a)"
      using Cons.prems(3) by auto
  qed
  finally show ?case unfolding xa .
qed

lemma scan_cycle:
  fixes b :: addr
  assumes cyc: "path m f0 (pre @ t # post) f0"
    and srt: "sorted_wrt (<) (pre @ t # post)"
    and lo: "\<forall>a\<in>set (pre @ [t]). a < b"
    and hi: "\<forall>a\<in>set post. b < a"
    and start: "start \<in> set (pre @ t # post)"
  shows "free_scan m b start = Some t"
proof -
  from cyc obtain y where p1: "path m f0 pre y" and p2: "path m y (t # post) f0"
    unfolding path_append by blast
  from p2 have yt: "y = t" and p3: "path m (hdr_next m t) post f0" by simp_all
  have f0: "f0 = hd (pre @ [t])" using path_start [OF p1] yt by simp
  have f0mem: "f0 \<in> set (pre @ [t])" unfolding f0 by (cases pre) simp_all
  have f0b: "f0 < b" using lo f0mem by blast
  have f0le: "f0 \<le> a" if "a \<in> set (pre @ t # post)" for a
  proof (cases pre)
    case Nil
    then have "f0 = t" using f0 by simp
    then show ?thesis using that srt Nil by (auto intro: less_imp_le)
  next
    case (Cons c cs)
    then have "f0 = c" using f0 by simp
    then show ?thesis using that srt Cons by (auto intro: less_imp_le)
  qed
  have nt: "hdr_next m t = hd (post @ [f0])" by (rule path_start [OF p3])
  \<comment> \<open>the scan stops at \<open>t\<close>\<close>
  have at_t: "free_scan m b t = Some t"
  proof (cases post)
    case Nil
    then have "hdr_next m t = f0" using nt by simp
    moreover have "f0 \<le> t" using f0le by simp
    moreover have "t < b" using lo by simp
    ultimately show ?thesis by (intro free_scan_wrap) simp_all
  next
    case (Cons c cs)
    then have "hdr_next m t = c" using nt by simp
    moreover have "b < c" using hi Cons by simp
    moreover have "t < b" using lo by simp
    ultimately show ?thesis by (intro free_scan_between) simp_all
  qed
  \<comment> \<open>from a block below \<open>b\<close>\<close>
  have from_low: "free_scan m b u = Some t" if u: "u \<in> set (pre @ [t])" for u
  proof (cases "u = t")
    case True
    then show ?thesis using at_t by simp
  next
    case False
    with u have "u \<in> set pre" by simp
    then obtain q1 q2 where pre: "pre = q1 @ u # q2" by (meson split_list)
    from p1 yt have "path m f0 (q1 @ u # q2) t" using pre by simp
    then obtain z where "path m z (u # q2) t" unfolding path_append by blast
    then have pu: "path m u (u # q2) t" by simp
    have "free_scan m b u = free_scan m b t"
    proof (rule scan_run [OF pu])
      show "sorted_wrt (<) ((u # q2) @ [t])"
        using srt unfolding pre by (simp add: sorted_wrt_append)
      show "(\<forall>a\<in>set ((u # q2) @ [t]). a < b) \<or> (\<forall>a\<in>set ((u # q2) @ [t]). b < a)"
        using lo unfolding pre by auto
    qed
    then show ?thesis using at_t by simp
  qed
  show ?thesis
  proof (cases "start \<in> set (pre @ [t])")
    case True
    then show ?thesis by (rule from_low)
  next
    case False
    with start have "start \<in> set post" by auto
    then obtain q1 q2 where post: "post = q1 @ start # q2" by (meson split_list)
    from p3 obtain z where "path m z (start # q2) f0" unfolding post path_append by blast
    then have ps: "path m start (start # q2) f0" by simp
    define l where "l = last (start # q2)"
    define fr where "fr = butlast (start # q2)"
    have sq: "start # q2 = fr @ [l]" unfolding l_def fr_def by simp
    from ps obtain w where pf: "path m start fr w" and pl: "path m w [l] f0"
      unfolding sq path_append by blast
    from pl have wl: "w = l" and nl: "hdr_next m l = f0" by simp_all
    have lpost: "set (fr @ [l]) \<subseteq> set post" unfolding sq [symmetric] post by auto
    have "free_scan m b start = free_scan m b l"
    proof (rule scan_run [OF pf [unfolded wl]])
      have "sorted_wrt (<) post" using srt by (simp add: sorted_wrt_append)
      then show "sorted_wrt (<) (fr @ [l])"
        unfolding post sq [symmetric] by (simp add: sorted_wrt_append)
      show "(\<forall>a\<in>set (fr @ [l]). a < b) \<or> (\<forall>a\<in>set (fr @ [l]). b < a)"
        using hi lpost by blast
    qed
    also have "\<dots> = free_scan m b (hdr_next m l)"
    proof (rule free_scan_skip)
      have "b < l" using hi lpost by auto
      then show "\<not> (l < b \<and> b < hdr_next m l)" by auto
      show "\<not> (hdr_next m l \<le> l \<and> (l < b \<or> b < hdr_next m l))"
        using \<open>b < l\<close> f0b unfolding nl by auto
    qed
    also have "\<dots> = Some t" unfolding nl by (rule from_low [OF f0mem])
    finally show ?thesis .
  qed
qed

section \<open>Well-formed heaps\<close>

lemma hdr_sep_nat:
  fixes x y :: addr
  assumes "unat x + 16 \<le> unat y" "unat y + 16 \<le> 2 ^ 64"
  shows "hdr_sep x y"
proof -
  have 1: "unat (y - x) = unat y - unat x" using assms by (simp add: unat_sub_if')
  have 2: "unat (x - y) = unat x + 2 ^ 64 - unat y" using assms by (simp add: unat_sub_if')
  have "16 \<le> unat y - unat x \<and> 16 \<le> unat x + 2 ^ 64 - unat y" using assms by simp arith
  then show ?thesis unfolding hdr_sep_def word_le_nat_alt 1 2 by simp
qed

lemma vhdr_sep:
  assumes "layout_ok s" "vhdr s x" "vhdr s y" "x \<noteq> y"
  shows "hdr_sep x y"
proof -
  have ne: "unat x \<noteq> unat y" using assms(4) by (simp add: word_unat_eq_iff)
  have bnd: "unat z + 16 \<le> 2 ^ 64" if "vhdr s z" for z
    using that assms(1) unfolding vhdr_def layout_ok_def by auto
  have far: "unat x + 16 \<le> unat y \<or> unat y + 16 \<le> unat x"
  proof (cases "x = base s \<or> y = base s")
    case True
    then show ?thesis using assms unfolding vhdr_def layout_ok_def by auto
  next
    case False
    then have x: "unat (pool s) \<le> unat x" "16 dvd (unat x - unat (pool s))"
      and y: "unat (pool s) \<le> unat y" "16 dvd (unat y - unat (pool s))"
      using assms(2,3) unfolding vhdr_def by auto
    from x obtain i where i: "unat x = unat (pool s) + 16 * i"
      by (metis dvd_def le_add_diff_inverse)
    from y obtain j where j: "unat y = unat (pool s) + 16 * j"
      by (metis dvd_def le_add_diff_inverse)
    from ne i j have "i \<noteq> j" by auto
    then show ?thesis unfolding i j by arith
  qed
  then show ?thesis
  proof
    assume "unat x + 16 \<le> unat y"
    then show ?thesis using bnd [OF assms(3)] by (rule hdr_sep_nat)
  next
    assume "unat y + 16 \<le> unat x"
    then have "hdr_sep y x" using bnd [OF assms(2)] by (rule hdr_sep_nat)
    then show ?thesis by (rule hdr_sep_sym)
  qed
qed

lemma in_pool_vhdr:
  assumes "layout_ok s" "in_pool s x"
  shows "vhdr s x"
  using assms unfolding vhdr_def in_pool_def layout_ok_def blk_end_def by auto

lemma in_pool_bounds:
  assumes "layout_ok s" "in_pool s x"
  shows "unat (base s) + 16 \<le> unat x" "blk_end (mem s) x + 16 < 2 ^ 64"
    "unat (hdr_size (mem s) x) < 2 ^ 60" "unat x < blk_end (mem s) x" "x \<noteq> base s" "x \<noteq> 0"
proof -
  show 1: "unat (base s) + 16 \<le> unat x" "blk_end (mem s) x + 16 < 2 ^ 64"
    using assms unfolding in_pool_def layout_ok_def by auto
  then show "unat (hdr_size (mem s) x) < 2 ^ 60" unfolding blk_end_def by simp
  show "unat x < blk_end (mem s) x" using assms(2) unfolding in_pool_def blk_end_def by simp
  show "x \<noteq> base s" using 1 by auto
  show "x \<noteq> 0" using 1 by auto
qed

lemma unat_hdr_plus:
  fixes x n :: addr
  assumes "unat x + 16 * unat n < 2 ^ 64"
  shows "unat (hdr_plus x n) = unat x + 16 * unat n"
proof -
  have "unat (16 :: addr) * unat n < 2 ^ LENGTH(64)" using assms by simp
  then have m: "unat (16 * n) = 16 * unat n"
    using unat_mult_lem [of 16 n] by simp
  have "unat x + unat (16 * n) < 2 ^ LENGTH(64)" using assms m by simp
  then have "unat (x + 16 * n) = unat x + unat (16 * n)"
    by (simp add: unat_add_lem [THEN iffD1])
  then show ?thesis by (simp add: hdr_plus_def HDR_def m)
qed

lemma hdr_plus_end:
  assumes "blk_end m x < 2 ^ 64"
  shows "unat (hdr_plus x (hdr_size m x)) = blk_end m x"
  using assms unat_hdr_plus [of x "hdr_size m x"] by (simp add: blk_end_def)

lemma split_sorted:
  fixes a :: addr
  assumes "sorted_wrt (<) xs"
  shows "\<exists>lo hi. xs = lo @ hi \<and> (\<forall>x\<in>set lo. x < a) \<and> (\<forall>x\<in>set hi. a \<le> x)"
  using assms
proof (induction xs)
  case Nil
  then show ?case by simp
next
  case (Cons x xs)
  show ?case
  proof (cases "x < a")
    case True
    from Cons obtain lo hi where "xs = lo @ hi" "\<forall>x\<in>set lo. x < a" "\<forall>x\<in>set hi. a \<le> x"
      by auto
    then have "x # xs = (x # lo) @ hi \<and> (\<forall>x\<in>set (x # lo). x < a) \<and> (\<forall>x\<in>set hi. a \<le> x)"
      using True by simp
    then show ?thesis by blast
  next
    case False
    then have "\<forall>y\<in>set (x # xs). a \<le> y" using Cons.prems by auto
    then have "x # xs = [] @ (x # xs) \<and> (\<forall>x\<in>set []. x < a) \<and> (\<forall>y\<in>set (x # xs). a \<le> y)"
      by simp
    then show ?thesis by blast
  qed
qed

lemma join_upper_fields:
  assumes at: "hdr_sep a t" and aq: "hdr_sep a (hdr_next m t)"
  shows "hdr_next (join_upper m a t) a =
           (if hdr_plus a (hdr_size m a) = hdr_next m t then hdr_next m (hdr_next m t)
            else hdr_next m t)"
    and "hdr_size (join_upper m a t) a =
           (if hdr_plus a (hdr_size m a) = hdr_next m t then hdr_size m a + hdr_size m (hdr_next m t)
            else hdr_size m a)"
    and "\<And>x. hdr_sep a x \<Longrightarrow> hdr_next (join_upper m a t) x = hdr_next m x"
    and "\<And>x. hdr_sep a x \<Longrightarrow> hdr_size (join_upper m a t) x = hdr_size m x"
  using at aq by (simp_all add: join_upper_def Let_def fields_other)

lemma join_lower_fields:
  assumes ta: "hdr_sep t a"
  shows "hdr_next (join_lower m a t) t =
           (if hdr_plus t (hdr_size m t) = a then hdr_next m a else a)"
    and "hdr_size (join_lower m a t) t =
           (if hdr_plus t (hdr_size m t) = a then hdr_size m t + hdr_size m a else hdr_size m t)"
    and "\<And>x. hdr_sep t x \<Longrightarrow> hdr_next (join_lower m a t) x = hdr_next m x"
    and "\<And>x. hdr_sep t x \<Longrightarrow> hdr_size (join_lower m a t) x = hdr_size m x"
  using ta by (simp_all add: join_lower_def Let_def fields_other)

lemma heap_sorted:
  assumes "heap_ok s bs al"
  shows "sorted_wrt (<) (base s # bs)"
proof -
  from assms have lay: "layout_ok s" and inp: "\<forall>x\<in>set bs. in_pool s x"
    and srt: "sorted_wrt (<) bs"
    unfolding heap_ok_def by auto
  have "base s < x" if "x \<in> set bs" for x
    using in_pool_bounds(1) [OF lay] inp that by (force simp: word_less_nat_alt)
  then show ?thesis using srt by simp
qed

lemma heap_apart:
  assumes "heap_ok s bs al" "x \<in> set (bs @ al)" "y \<in> set (bs @ al)" "x < y"
  shows "blk_end (mem s) x \<le> unat y"
proof -
  from assms have lay: "layout_ok s" and "in_pool s y" and "apart (mem s) x y"
    unfolding heap_ok_def by auto
  then show ?thesis
    using in_pool_bounds(4) [OF lay \<open>in_pool s y\<close>] assms(4)
    by (auto simp: apart_def word_less_nat_alt)
qed

lemma heap_vhdr:
  assumes "heap_ok s bs al" "x \<in> set (base s # bs @ al)"
  shows "vhdr s x"
proof (cases "x = base s")
  case True
  then show ?thesis by (simp add: vhdr_def)
next
  case False
  with assms have "in_pool s x" "layout_ok s" unfolding heap_ok_def by auto
  then show ?thesis using in_pool_vhdr by blast
qed

lemma heap_alloc_not_free:
  assumes "heap_ok s bs al" "a \<in> set al"
  shows "a \<notin> set (base s # bs)" "in_pool s a"
proof -
  from assms have lay: "layout_ok s" and ina: "in_pool s a" and nb: "a \<notin> set bs"
    unfolding heap_ok_def by auto
  show "in_pool s a" by fact
  have "a \<noteq> base s" using in_pool_bounds(5) [OF lay ina] .
  then show "a \<notin> set (base s # bs)" using nb by simp
qed

text \<open>Where the scan of \<open>memmgr_free\<close> stops: the free list cut around the block.\<close>

lemma heap_cut:
  assumes ok: "heap_ok s bs al" and a: "a \<in> set al"
  shows "\<exists>pre t post. base s # bs = pre @ t # post \<and> (\<forall>x\<in>set (pre @ [t]). x < a) \<and>
           (\<forall>x\<in>set post. a < x)"
proof -
  from ok have lay: "layout_ok s" unfolding heap_ok_def by simp
  note na = heap_alloc_not_free [OF ok a]
  from split_sorted [OF heap_sorted [OF ok], of a]
  obtain lo hi where cut: "base s # bs = lo @ hi" and lo: "\<forall>x\<in>set lo. x < a"
    and hi: "\<forall>x\<in>set hi. a \<le> x" by blast
  have "base s < a" using in_pool_bounds(1) [OF lay na(2)] by (simp add: word_less_nat_alt)
  then have "lo \<noteq> []" using cut hi by (cases lo) auto
  then have l: "lo = butlast lo @ [last lo]" by simp
  have "\<forall>x\<in>set hi. a < x"
  proof
    fix x assume x: "x \<in> set hi"
    then have "x \<noteq> a" using na(1) cut by (metis Un_iff set_append)
    then show "a < x" using hi x by force
  qed
  moreover have "base s # bs = butlast lo @ last lo # hi" using cut l by (metis append.assoc append_Cons append_Nil)
  moreover have "\<forall>x\<in>set (butlast lo @ [last lo]). x < a" using lo l by metis
  ultimately show ?thesis by blast
qed

section \<open>memmgr\_free on a well-formed heap\<close>

text \<open>The state that \<open>memmgr_free\<close> leaves, by the two joins it performs.\<close>

lemma grow_apart:
  fixes xs xe ts te as ae :: nat
  assumes "xs < xe" "xe \<le> ts \<or> te \<le> xs" "xe \<le> as \<or> ae \<le> xs" "te = as" "as < ae"
  shows "xe \<le> ts \<or> ae \<le> xs"
  using assms by arith

lemma free_cut_ok:
  assumes ok: "heap_ok s bs al" and a: "a \<in> set al"
    and cut: "base s # bs = pre @ t # post"
    and lo: "\<forall>x\<in>set (pre @ [t]). x < a" and hi: "\<forall>x\<in>set post. a < x"
  shows "\<exists>s' bs' f. memmgr_free s (a + 16) = Some s' \<and>
      heap_ok s' bs' (filter (\<lambda>x. x \<noteq> a) al) \<and>
      pool s' = pool s \<and> POOL_SIZE s' = POOL_SIZE s \<and> pool_free_pos s' = pool_free_pos s \<and>
      base s' = base s \<and>
      f \<in> set bs' \<and> unat f \<le> unat a \<and> blk_end (mem s) a \<le> blk_end (mem s') f \<and>
      (f = freep s' \<or> hdr_next (mem s') (freep s') = f) \<and>
      (\<forall>g\<in>set bs. blk_end (mem s) g = unat a \<longrightarrow> f = g \<and> freep s' = g) \<and>
      (\<forall>x\<in>set al. x \<noteq> a \<longrightarrow> hdr_size (mem s') x = hdr_size (mem s) x)"
proof -
  define m where "m = mem s"
  define U where "U \<longleftrightarrow> post \<noteq> [] \<and> blk_end m a = unat (hd post)"
  define L where "L \<longleftrightarrow> t \<noteq> base s \<and> blk_end m t = unat a"
  define post' where "post' = (if U then tl post else post)"
  define sa' where "sa' = (if U then hdr_size m a + hdr_size m (hd post) else hdr_size m a)"
  define m2 where "m2 = join_lower (join_upper m a t) a t"
  from ok have lay: "layout_ok s" and cyc: "path m (base s) (base s # bs) (base s)"
    and z: "hdr_size m (base s) = 0" and fp: "freep s \<in> set (base s # bs)"
    and inp: "\<forall>x\<in>set (bs @ al). in_pool s x"
    and srt: "sorted_wrt (<) bs" and disj: "\<forall>x\<in>set al. x \<notin> set bs"
    and apt: "\<forall>x\<in>set (bs @ al). \<forall>y\<in>set (bs @ al). x \<noteq> y \<longrightarrow> apart m x y"
    unfolding heap_ok_def m_def by auto
  note na = heap_alloc_not_free [OF ok a]
  note ab = in_pool_bounds [OF lay na(2)]
  have va: "vhdr s a" using heap_vhdr [OF ok] a by simp
  have vfl: "vhdr s x" if "x \<in> set (pre @ t # post)" for x
  proof -
    from that have "x \<in> set (base s # bs)" by (simp only: cut)
    then show ?thesis by (intro heap_vhdr [OF ok]) auto
  qed
  have tmem: "t \<in> set (base s # bs)" using cut by simp
  have ta: "t \<noteq> a" using lo by auto
  have sep_at: "hdr_sep a t" using vhdr_sep [OF lay va vfl] ta by simp
  \<comment> \<open>the scan\<close>
  have scan: "free_scan m a (freep s) = Some t"
  proof (rule scan_cycle [where pre = pre and post = post and ?f0.0 = "base s"])
    show "path m (base s) (pre @ t # post) (base s)" using cyc cut by simp
    show "sorted_wrt (<) (pre @ t # post)" using heap_sorted [OF ok] cut by simp
    show "freep s \<in> set (pre @ t # post)" using fp cut by simp
  qed (use lo hi in auto)
  \<comment> \<open>the successor of \<open>t\<close>\<close>
  from cyc obtain y where "path m (base s) pre y" and "path m y (t # post) (base s)"
    unfolding cut path_append by blast
  then have ppost: "path m (hdr_next m t) post (base s)" by simp
  define q where "q = hdr_next m t"
  have q: "q = hd (post @ [base s])" unfolding q_def by (rule path_start [OF ppost])
  have vq: "vhdr s q"
  proof (cases post)
    case Nil
    then show ?thesis using q by (simp add: vhdr_def)
  next
    case (Cons c cs)
    then show ?thesis using q vfl by simp
  qed
  have qa: "q \<noteq> a" using q hi ab(5) by (cases post) auto
  have sep_aq: "hdr_sep a q" using vhdr_sep [OF lay va vq] qa by simp
  \<comment> \<open>the test for joining with the upper neighbour\<close>
  have "blk_end m a < 2 ^ 64" using ab(2) by (simp add: m_def)
  then have enda: "unat (hdr_plus a (hdr_size m a)) = blk_end m a"
    by (rule hdr_plus_end)
  have U: "hdr_plus a (hdr_size m a) = q \<longleftrightarrow> U"
  proof (cases post)
    case Nil
    then have "q = base s" using q by simp
    moreover have "unat (base s) < blk_end m a" using ab(1,4) by (simp add: m_def)
    ultimately show ?thesis using enda Nil by (auto simp: U_def)
  next
    case (Cons c cs)
    then have "q = c" using q by simp
    then show ?thesis using enda Cons by (auto simp: U_def word_unat_eq_iff)
  qed
  \<comment> \<open>the successor of the upper neighbour\<close>
  have pp: "path m (hd (post' @ [base s])) post' (base s)"
  proof (cases U)
    case True
    then obtain c cs where post: "post = c # cs" unfolding U_def by (cases post) auto
    with ppost have "path m (hdr_next m c) cs (base s)" by simp
    from this path_start [OF this] show ?thesis using True post by (simp add: post'_def)
  next
    case False
    then show ?thesis using ppost q by (simp add: post'_def q_def)
  qed
  have nq: "hdr_next m q = hd (post' @ [base s])" if U
  proof -
    from that obtain c cs where post: "post = c # cs" unfolding U_def by (cases post) auto
    with ppost have "q = c" "path m (hdr_next m c) cs (base s)" using q by simp_all
    from this(1) path_start [OF this(2)] show ?thesis using that post by (simp add: post'_def)
  qed
  \<comment> \<open>the fields after the first join\<close>
  define m1 where "m1 = join_upper m a t"
  note ju = join_upper_fields [OF sep_at sep_aq [unfolded q_def], folded q_def m1_def, unfolded U]
  have n1a: "hdr_next m1 a = hd (post' @ [base s])"
    using ju(1) nq q by (auto simp: post'_def)
  have s1a: "hdr_size m1 a = sa'"
    using ju(2) q by (cases post) (auto simp: sa'_def U_def)
  have s1t: "hdr_size m1 t = hdr_size m t" "hdr_next m1 t = q"
    using ju(3,4) [OF sep_at] by (simp_all add: q_def)
  \<comment> \<open>the test for joining with the lower neighbour\<close>
  have L: "hdr_plus t (hdr_size m1 t) = a \<longleftrightarrow> L"
  proof (cases "t = base s")
    case True
    then have "hdr_size m1 t = 0" using z s1t by simp
    then show ?thesis using True ab(5) by (simp add: L_def hdr_plus_def)
  next
    case False
    then have "in_pool s t" using tmem inp by auto
    from in_pool_bounds(2) [OF lay this] have "blk_end m t < 2 ^ 64" by (simp add: m_def)
    then have "unat (hdr_plus t (hdr_size m t)) = blk_end m t"
      by (rule hdr_plus_end)
    then show ?thesis using False by (auto simp: s1t L_def word_unat_eq_iff)
  qed
  have m2: "m2 = join_lower m1 a t" by (simp add: m2_def m1_def)
  note jl = join_lower_fields [OF hdr_sep_sym [OF sep_at], where m = m1, folded m2, unfolded L]
  have nt: "hdr_next m2 t = (if L then hd (post' @ [base s]) else a)"
    using jl(1) n1a by simp
  have st: "hdr_size m2 t = (if L then hdr_size m t + sa' else hdr_size m t)"
    using jl(2) s1a s1t by simp
  have na2: "hdr_next m2 a = hd (post' @ [base s])" if "\<not> L"
    using jl(3) [OF hdr_sep_sym [OF sep_at]] n1a by simp
  have sa2: "hdr_size m2 a = sa'" if "\<not> L"
    using jl(4) [OF hdr_sep_sym [OF sep_at]] s1a by simp
  have same: "hdr_next m2 x = hdr_next m x \<and> hdr_size m2 x = hdr_size m x"
    if "vhdr s x" "x \<noteq> a" "x \<noteq> t" for x
  proof -
    have vt: "vhdr s t" using vfl by simp
    have 1: "hdr_sep a x" using vhdr_sep [OF lay va that(1)] that(2) by simp
    have 2: "hdr_sep t x" using vhdr_sep [OF lay vt that(1)] that(3) by simp
    show ?thesis using jl(3,4) [OF 2] ju(3,4) [OF 1] by simp
  qed
  have "a + 16 - HDR = a" by (simp add: HDR_def)
  then have fr: "memmgr_free s (a + 16) = Some (s\<lparr>mem := m2, freep := t\<rparr>)"
    using scan by (simp add: memmgr_free_def Let_def m_def m2_def)

  \<comment> \<open>the new state and its free list\<close>
  define s' where "s' = s\<lparr>mem := m2, freep := t\<rparr>"
  define mid where "mid = (if L then [] else [a])"
  define fl' where "fl' = pre @ t # mid @ post'"
  define bs' where "bs' = tl fl'"
  define al' where "al' = filter (\<lambda>x. x \<noteq> a) al"
  define f where "f = (if L then t else a)"
  define Ea where "Ea = unat a + 16 * unat sa'"
  have fl: "set (pre @ t # post) = insert (base s) (set bs)"
    using cut by (metis list.simps(15))
  have sfl: "sorted_wrt (<) (pre @ t # post)" using heap_sorted [OF ok] cut by simp
  have post'sub: "set post' \<subseteq> set post"
    by (cases post) (auto simp: post'_def)
  have hdfl: "fl' = base s # bs'"
  proof (cases pre)
    case Nil
    then show ?thesis using cut by (simp add: fl'_def bs'_def)
  next
    case (Cons c cs)
    then show ?thesis using cut by (simp add: fl'_def bs'_def)
  qed
  have tb: "t = base s \<or> t \<in> set bs" using tmem by simp
  have inF: "in_pool s x" if "x \<in> set bs \<or> x \<in> set al" for x using inp that by auto
  have nonempty: "unat x < blk_end m x" if "x \<in> set bs \<or> x \<in> set al" for x
    using in_pool_bounds(4) [OF lay inF [OF that]] by (simp add: m_def)
  have small: "unat (hdr_size m x) < 2 ^ 60" if "x \<in> set bs \<or> x \<in> set al" for x
    using in_pool_bounds(3) [OF lay inF [OF that]] by (simp add: m_def)
  have top: "blk_end m x \<le> unat (pool s) + unat (pool_free_pos s)" if "x \<in> set bs \<or> x \<in> set al" for x
    using inF [OF that] by (simp add: in_pool_def m_def)
  have postbs: "x \<in> set bs" if "x \<in> set post" for x
  proof -
    have "x \<in> insert (base s) (set bs)" using that fl by auto
    moreover have "x \<noteq> base s"
      using hi that ab(1) by (auto simp: word_less_nat_alt)
    ultimately show ?thesis by simp
  qed
  have Ufacts: "hd post \<in> set bs \<and> blk_end m a = unat (hd post) \<and> post = hd post # post'" if U
    using that postbs by (cases post) (auto simp: U_def post'_def)
  have Lfacts: "t \<in> set bs \<and> blk_end m t = unat a" if L
    using that tb by (auto simp: L_def)
  \<comment> \<open>sizes and ends as numbers\<close>
  have usa: "unat sa' = (if U then unat (hdr_size m a) + unat (hdr_size m (hd post)) else unat (hdr_size m a))"
  proof (cases U)
    case True
    have "unat (hdr_size m a) + unat (hdr_size m (hd post)) < 2 ^ LENGTH(64)"
      using small [of a] small [of "hd post"] a Ufacts [OF True] by simp
    then show ?thesis using True by (simp add: sa'_def unat_add_lem [THEN iffD1])
  next
    case False
    then show ?thesis by (simp add: sa'_def)
  qed
  have Ea: "Ea = (if U then blk_end m (hd post) else blk_end m a)"
    using usa Ufacts by (auto simp: Ea_def blk_end_def)
  have Ea_lo: "blk_end m a \<le> Ea" using usa by (auto simp: Ea_def blk_end_def)
  have Ea_hi: "Ea \<le> unat (pool s) + unat (pool_free_pos s)"
    using Ea top [of a] top [of "hd post"] a Ufacts by auto
  have sa'pos: "0 < unat sa'" "unat sa' < 2 ^ 61"
    using usa ab(3,4) small [of "hd post"] Ufacts by (auto simp: m_def blk_end_def)
  have e2a: "blk_end m2 a = Ea" if "\<not> L"
    using sa2 [OF that] by (simp add: blk_end_def Ea_def)
  have ust: "unat (hdr_size m2 t) = unat (hdr_size m t) + unat sa'" if L
  proof -
    have "unat (hdr_size m t) + unat sa' < 2 ^ LENGTH(64)"
      using small [of t] Lfacts [OF that] sa'pos by simp
    then show ?thesis using st that by (simp add: unat_add_lem [THEN iffD1])
  qed
  have e2t: "blk_end m2 t = (if L then Ea else blk_end m t)"
    using st ust Lfacts by (auto simp: blk_end_def Ea_def)
  have e2: "blk_end m2 x = blk_end m x \<and> hdr_size m2 x = hdr_size m x"
    if "x \<in> set (base s # bs @ al)" "x \<noteq> a" "x \<noteq> t" for x
    using same [OF heap_vhdr [OF ok that(1)] that(2,3)] by (simp add: blk_end_def)
  \<comment> \<open>the invariant, part by part\<close>
  have i1: "layout_ok s'" using lay by (simp add: layout_ok_def s'_def)
  have dist: "t \<notin> set pre" "a \<notin> set (pre @ t # post)" "t \<notin> set post'"
    using sfl lo hi post'sub by (auto simp: sorted_wrt_append)
  have i2: "path (mem s') (base s) (base s # bs') (base s)"
  proof -
    from cyc obtain y where p1: "path m (base s) pre y" and "path m y (t # post) (base s)"
      unfolding cut path_append by blast
    then have p1: "path m (base s) pre t" by simp
    have f1: "path m2 (base s) pre t = path m (base s) pre t"
    proof (rule path_frame, rule ballI)
      fix x assume x: "x \<in> set pre"
      then have "vhdr s x" "x \<noteq> a" "x \<noteq> t" using vfl dist by auto
      then show "hdr_next m2 x = hdr_next m x" using same by blast
    qed
    have f2: "path m2 (hd (post' @ [base s])) post' (base s) = path m (hd (post' @ [base s])) post' (base s)"
    proof (rule path_frame, rule ballI)
      fix x assume x: "x \<in> set post'"
      then have "x \<in> set post" using post'sub by auto
      then have "vhdr s x" "x \<noteq> a" "x \<noteq> t" using vfl dist x by auto
      then show "hdr_next m2 x = hdr_next m x" using same by blast
    qed
    have "path m2 (hdr_next m2 t) (mid @ post') (base s)"
      using nt na2 f2 pp by (auto simp: mid_def)
    then have "path m2 t (t # mid @ post') (base s)" by simp
    with f1 p1 have "\<exists>y. path m2 (base s) pre y \<and> path m2 y (t # mid @ post') (base s)" by blast
    then have "path m2 (base s) (pre @ t # mid @ post') (base s)"
      by (rule path_append [THEN iffD2])
    then have "path m2 (base s) fl' (base s)" by (simp add: fl'_def)
    then show ?thesis using hdfl by (simp add: s'_def)
  qed
  have i3: "hdr_size (mem s') (base s) = 0"
  proof (cases "t = base s")
    case True
    then show ?thesis using st z by (simp add: s'_def L_def)
  next
    case False
    then show ?thesis using e2 [of "base s"] z ab(5) by (simp add: s'_def)
  qed
  have i4: "freep s' \<in> set (base s # bs')"
    unfolding hdfl [symmetric] by (simp add: s'_def fl'_def)
  have spost': "sorted_wrt (<) post'"
    using sfl by (cases post) (auto simp: post'_def sorted_wrt_append)
  have sb: "sorted_wrt (<) (base s # bs')"
    unfolding hdfl [symmetric] fl'_def using sfl lo hi post'sub spost'
    by (auto simp: sorted_wrt_append mid_def)
  have bs'sub: "x \<in> set bs \<or> (x = a \<and> \<not> L)" if "x \<in> set bs'" for x
  proof -
    have "x \<noteq> base s" using sb that by auto
    moreover have "x \<in> set fl'" using that hdfl by simp
    then have "x \<in> set (pre @ t # post) \<or> (x = a \<and> \<not> L)"
      using post'sub by (auto simp: fl'_def mid_def split: if_splits)
    ultimately show ?thesis using fl by auto
  qed
  have i6: "sorted_wrt (<) bs'" using sb by simp
  have al'sub: "x \<in> set al \<and> x \<noteq> a \<and> x \<noteq> t \<and> x \<notin> set bs" if "x \<in> set al'" for x
    using that disj tb inF [of x] in_pool_bounds(5) [OF lay, of x] by (auto simp: al'_def)
  have i7: "\<forall>x\<in>set al'. x \<notin> set bs'"
    using al'sub bs'sub by blast
  have grown: "blk_end m2 f = Ea" "f \<in> set bs'" "unat f \<le> unat a"
  proof -
    show "blk_end m2 f = Ea" using e2t e2a by (simp add: f_def)
    have "f \<in> set fl'" by (simp add: f_def fl'_def mid_def)
    moreover have "f \<noteq> base s" using ab(5) by (auto simp: f_def L_def)
    ultimately show "f \<in> set bs'" using hdfl by auto
    show "unat f \<le> unat a" using lo by (auto simp: f_def word_less_nat_alt)
  qed
  have others: "blk_end m2 x = blk_end m x \<and> hdr_size m2 x = hdr_size m x \<and>
      (x \<in> set bs \<or> x \<in> set al) \<and> x \<noteq> a \<and> (U \<longrightarrow> x \<noteq> hd post) \<and> (L \<longrightarrow> x \<noteq> t)"
    if x: "x \<in> set (bs' @ al')" "x \<noteq> f" for x
  proof -
    have xa: "x \<noteq> a" using x bs'sub [of x] al'sub [of x] na(1) by (auto simp: f_def split: if_splits)
    have xF: "x \<in> set bs \<or> x \<in> set al" using x bs'sub al'sub xa by auto
    have xu: "x \<noteq> hd post" if U
    proof
      assume e: "x = hd post"
      from Ufacts [OF that] have p: "post = hd post # post'" and ub: "hd post \<in> set bs" by simp_all
      have "sorted_wrt (<) (pre @ t # hd post # post')" using sfl p by simp
      then have "hd post \<notin> set post'" "hd post \<notin> set pre" "hd post \<noteq> t"
        by (auto simp: sorted_wrt_append)
      moreover have "a < hd post" using hi p by (metis list.set_intros(1))
      then have "hd post \<noteq> a" by auto
      ultimately have "hd post \<notin> set fl'" by (auto simp: fl'_def mid_def)
      then have "hd post \<notin> set bs'" using hdfl by auto
      moreover have "hd post \<notin> set al'" using al'sub ub by blast
      ultimately show False using x e by auto
    qed
    have xt: "x \<noteq> t" if L using x that by (simp add: f_def)
    show ?thesis
    proof (cases "x = t")
      case True
      then have "\<not> L" using xt by blast
      then show ?thesis using e2t st True xF xa xu by simp
    next
      case False
      have "x \<in> set (base s # bs @ al)" using xF by auto
      from e2 [OF this xa False] show ?thesis using xF xa xu False by simp
    qed
  qed
  have i5: "\<forall>x\<in>set (bs' @ al'). in_pool s' x"
  proof
    fix x assume x: "x \<in> set (bs' @ al')"
    show "in_pool s' x"
    proof (cases "x = f")
      case True
      have "in_pool s f" using inF [of t] inF [of a] a Lfacts by (auto simp: f_def)
      moreover have "0 < unat (hdr_size m2 f)" using ust sa2 sa'pos by (auto simp: f_def)
      ultimately show ?thesis using grown(1) Ea_hi True
        by (simp add: in_pool_def s'_def)
    next
      case False
      from others [OF x False] have "in_pool s x" "blk_end m2 x = blk_end m x" "hdr_size m2 x = hdr_size m x"
        using inF by auto
      then show ?thesis by (simp add: in_pool_def s'_def m_def)
    qed
  qed
  have clear: "blk_end m y \<le> unat f \<or> Ea \<le> unat y" if y: "y \<in> set (bs' @ al')" "y \<noteq> f" for y
  proof -
    note o = others [OF y]
    then have yF: "y \<in> set (bs @ al)" by auto
    have ne: "unat y < blk_end m y" using nonempty o by blast
    have aF: "a \<in> set (bs @ al)" using a by simp
    have ya: "blk_end m y \<le> unat a \<or> blk_end m a \<le> unat y"
      using apt yF aF o by (auto simp: apart_def)
    have step1: "blk_end m y \<le> unat a \<or> Ea \<le> unat y"
    proof (cases U)
      case True
      note u = Ufacts [OF True]
      then have "hd post \<in> set (bs @ al)" by simp
      then have "blk_end m y \<le> unat (hd post) \<or> blk_end m (hd post) \<le> unat y"
        using apt yF o True by (auto simp: apart_def)
      from grow_apart [OF ne ya this] u nonempty [of "hd post"] show ?thesis
        using Ea True by auto
    next
      case False
      then show ?thesis using ya Ea by simp
    qed
    show ?thesis
    proof (cases L)
      case True
      note l = Lfacts [OF True]
      then have "t \<in> set (bs @ al)" by simp
      then have "blk_end m y \<le> unat t \<or> blk_end m t \<le> unat y"
        using apt yF o True by (auto simp: apart_def)
      from grow_apart [OF ne this step1] l Ea_lo nonempty [of a] a show ?thesis
        using True by (auto simp: f_def)
    next
      case False
      then show ?thesis using step1 by (simp add: f_def)
    qed
  qed
  have i8: "\<forall>x\<in>set (bs' @ al'). \<forall>y\<in>set (bs' @ al'). x \<noteq> y \<longrightarrow> apart (mem s') x y"
  proof (intro ballI impI)
    fix x y assume x: "x \<in> set (bs' @ al')" and y: "y \<in> set (bs' @ al')" and xy: "x \<noteq> y"
    consider "x = f" | "y = f" | "x \<noteq> f" "y \<noteq> f" by blast
    then show "apart (mem s') x y"
    proof cases
      case 1
      then show ?thesis using clear [OF y] xy others [OF y] grown(1)
        by (auto simp: apart_def s'_def)
    next
      case 2
      then show ?thesis using clear [OF x] xy others [OF x] grown(1)
        by (auto simp: apart_def s'_def)
    next
      case 3
      from others [OF x 3(1)] others [OF y 3(2)] apt xy show ?thesis
        by (auto simp: apart_def s'_def)
    qed
  qed
  have hok: "heap_ok s' bs' al'"
    unfolding heap_ok_def using i1 i2 i3 i4 i5 i6 i7 i8 by (simp add: s'_def)
  \<comment> \<open>where the freed block went\<close>
  have c1: "f = freep s' \<or> hdr_next (mem s') (freep s') = f"
    using nt by (auto simp: s'_def f_def)
  have c2: "\<forall>g\<in>set bs. blk_end m g = unat a \<longrightarrow> f = g \<and> freep s' = g"
  proof (intro ballI impI)
    fix g assume g: "g \<in> set bs" and e: "blk_end m g = unat a"
    have "g < a" using nonempty [of g] g e by (simp add: word_less_nat_alt)
    moreover have "g \<in> set (pre @ t # post)" using g fl by auto
    ultimately have "g \<in> set (pre @ [t])" using hi by auto
    have "g = t"
    proof (rule ccontr)
      assume "g \<noteq> t"
      then have gp: "g \<in> set pre" using \<open>g \<in> set (pre @ [t])\<close> by simp
      then have "g < t" using sfl by (auto simp: sorted_wrt_append)
      moreover have "t \<in> set bs"
        using tb \<open>g < t\<close> in_pool_bounds(1) [OF lay inF [of g]] g
        by (auto simp: word_less_nat_alt)
      ultimately have "blk_end m g \<le> unat t"
        using heap_apart [OF ok, of g t] g by (simp add: m_def)
      then show False using e lo by (simp add: word_less_nat_alt)
    qed
    then have L using g e in_pool_bounds(5) [OF lay inF [of g]] by (auto simp: L_def)
    then show "f = g \<and> freep s' = g" using \<open>g = t\<close> by (simp add: f_def s'_def)
  qed
  have c3: "\<forall>x\<in>set al. x \<noteq> a \<longrightarrow> hdr_size (mem s') x = hdr_size (mem s) x"
  proof (intro ballI impI)
    fix x assume "x \<in> set al" "x \<noteq> a"
    then have "x \<in> set al'" by (simp add: al'_def)
    from al'sub [OF this] e2 [of x] show "hdr_size (mem s') x = hdr_size (mem s) x"
      by (simp add: s'_def m_def)
  qed
  show ?thesis
    apply (rule exI [of _ s'], rule exI [of _ bs'], rule exI [of _ f])
    using fr hok grown Ea_lo c1 c2 c3
    by (simp add: s'_def al'_def m_def)

qed

lemma free_ok:
  assumes ok: "heap_ok s bs al" and a: "a \<in> set al"
  shows "\<exists>s' bs' f. memmgr_free s (a + 16) = Some s' \<and>
      heap_ok s' bs' (filter (\<lambda>x. x \<noteq> a) al) \<and>
      pool s' = pool s \<and> POOL_SIZE s' = POOL_SIZE s \<and> pool_free_pos s' = pool_free_pos s \<and>
      base s' = base s \<and>
      f \<in> set bs' \<and> unat f \<le> unat a \<and> blk_end (mem s) a \<le> blk_end (mem s') f \<and>
      (f = freep s' \<or> hdr_next (mem s') (freep s') = f) \<and>
      (\<forall>g\<in>set bs. blk_end (mem s) g = unat a \<longrightarrow> f = g \<and> freep s' = g) \<and>
      (\<forall>x\<in>set al. x \<noteq> a \<longrightarrow> hdr_size (mem s') x = hdr_size (mem s) x)"
proof -
  from heap_cut [OF ok a] obtain pre t post where
    "base s # bs = pre @ t # post" "\<forall>x\<in>set (pre @ [t]). x < a" "\<forall>x\<in>set post. a < x"
    by blast
  from free_cut_ok [OF ok a this] show ?thesis .
qed

text \<open>In a cycle every header of the list is followed by the next one of the list.\<close>

lemma path_succ:
  assumes "path m x (l1 @ a # l2) y"
  shows "hdr_next m a = hd (l2 @ [y])"
proof -
  from assms obtain z where "path m z (a # l2) y" unfolding path_append by blast
  then have "path m (hdr_next m a) l2 y" by simp
  then show ?thesis by (rule path_start)
qed

lemma path_last:
  assumes "path m x (xs @ [a]) y"
  shows "hdr_next m a = y"
  using path_succ [OF assms] by simp

text \<open>The walk of \<open>memmgr_alloc\<close> around the free list of a well-formed heap, up to the
  first block that is large enough.\<close>

lemma heap_walk:
  assumes ok: "heap_ok s bs al" and big: "\<exists>x\<in>set (base s # bs). nq \<le> hdr_size (mem s) x"
  shows "\<exists>prev f. alloc_loop s nq (freep s) (hdr_next (mem s) (freep s)) = alloc_loop s nq prev f \<and>
      prev \<in> set (base s # bs) \<and> f \<in> set (base s # bs) \<and> hdr_next (mem s) prev = f \<and>
      nq \<le> hdr_size (mem s) f"
proof -
  define m where "m = mem s"
  define fp where "fp = freep s"
  from ok have cyc: "path m (base s) (base s # bs) (base s)"
    and fpm: "fp \<in> set (base s # bs)"
    unfolding heap_ok_def m_def fp_def by auto
  have dist: "distinct (base s # bs)"
    using heap_sorted [OF ok] strict_sorted_iff [of "base s # bs"] by blast
  from fpm obtain pre post where cut: "base s # bs = pre @ fp # post" by (meson split_list)
  from cyc obtain y where "path m (base s) pre y" "path m y (fp # post) (base s)"
    unfolding cut path_append by blast
  then have p1: "path m (base s) pre fp" and p2: "path m (hdr_next m fp) post (base s)" by simp_all
  define v where "v = post @ pre @ [fp]"
  have pv: "path m (hdr_next m fp) v (hdr_next m fp)"
  proof -
    have "path m fp [fp] (hdr_next m fp)" by simp
    with p1 have "path m (base s) (pre @ [fp]) (hdr_next m fp)" unfolding path_append by blast
    with p2 show ?thesis unfolding v_def path_append by blast
  qed
  have sv: "set v = set (base s # bs)" unfolding v_def cut by auto
  have dv: "distinct v" using dist unfolding cut v_def by auto
  from big sv have "\<exists>x\<in>set v. nq \<le> hdr_size m x" by (simp add: m_def)
  from split_list_first_prop [OF this] obtain v1 f v2 where
    v: "v = v1 @ f # v2" and f: "nq \<le> hdr_size m f" and v1: "\<forall>x\<in>set v1. \<not> nq \<le> hdr_size m x"
    by blast
  have fin: "x \<in> set (base s # bs)" if "x \<in> set (v1 @ f # v2)" for x
    using that unfolding sv [unfolded v] .
  have "last v = fp" by (simp add: v_def)
  then have "fp \<in> set (f # v2)" unfolding v by (metis last_appendR last_in_set list.distinct(1))
  then have fpv1: "fp \<notin> set v1" using dv unfolding v by auto
  from pv obtain z where w1: "path m (hdr_next m fp) v1 z" and "path m z (f # v2) (hdr_next m fp)"
    unfolding v path_append by blast
  then have w: "path m (hdr_next m fp) v1 f" by simp
  have "alloc_loop s nq fp (hdr_next m fp) = alloc_loop s nq (last (fp # v1)) f"
  proof (rule alloc_loop_walk)
    show "path (mem s) (hdr_next m fp) v1 f" using w by (simp add: m_def)
    show "\<forall>a\<in>set v1. hdr_size (mem s) a < nq \<and> a \<noteq> freep s"
      using v1 fpv1 by (auto simp: m_def fp_def)
  qed
  moreover have "last (fp # v1) \<in> set (base s # bs)"
  proof (cases v1)
    case Nil
    then show ?thesis using fpm by simp
  next
    case (Cons c cs)
    then have "last (fp # v1) \<in> set v1" by simp
    then show ?thesis by (intro fin) simp
  qed
  moreover have "f \<in> set (base s # bs)" by (intro fin) simp
  moreover have "hdr_next m (last (fp # v1)) = f"
  proof (cases v1 rule: rev_cases)
    case Nil
    then show ?thesis using w by simp
  next
    case (snoc cs c)
    then show ?thesis using w path_last [of m "hdr_next m fp" cs c f] by simp
  qed
  ultimately show ?thesis using f unfolding m_def fp_def by blast
qed

section \<open>memmgr\_alloc on a well-formed heap\<close>

lemma taken_ptr:
  fixes b :: addr
  assumes "unat b + 16 < 2 ^ 64"
  shows "hdr_plus b 1 - 16 = b" "hdr_plus b 1 \<noteq> 0" "hdr_plus b 1 = b + 16"
proof -
  show e: "hdr_plus b 1 = b + 16" by (simp add: hdr_plus_def HDR_def)
  show "hdr_plus b 1 - 16 = b" by (simp add: e)
  have "unat (hdr_plus b 1) = unat b + 16 * unat (1 :: addr)"
    by (rule unat_hdr_plus) (use assms in simp)
  then show "hdr_plus b 1 \<noteq> 0" by (auto simp: word_unat_eq_iff)
qed

text \<open>Taking a whole free block.\<close>

lemma exact_ok:
  assumes ok: "heap_ok s bs al"
    and cut: "base s # bs = l1 @ prev # f # l2"
    and nq: "hdr_size (mem s) f = nq"
  defines "s' \<equiv> s\<lparr>mem := set_next (mem s) prev (hdr_next (mem s) f), freep := prev\<rparr>"
  shows "\<exists>bs'. heap_ok s' bs' (f # al)" "f \<notin> set al" "hdr_size (mem s') f = nq"
    "\<forall>x\<in>set al. hdr_size (mem s') x = hdr_size (mem s) x" "hdr_plus f 1 \<noteq> 0" "hdr_plus f 1 - 16 = f"
proof -
  define m where "m = mem s"
  define m' where "m' = set_next m prev (hdr_next m f)"
  from ok have lay: "layout_ok s" and cyc: "path m (base s) (base s # bs) (base s)"
    and z: "hdr_size m (base s) = 0"
    and inp: "\<forall>x\<in>set (bs @ al). in_pool s x"
    and disj: "\<forall>x\<in>set al. x \<notin> set bs"
    and apt: "\<forall>x\<in>set (bs @ al). \<forall>y\<in>set (bs @ al). x \<noteq> y \<longrightarrow> apart m x y"
    unfolding heap_ok_def m_def by auto
  have sfl: "sorted_wrt (<) (l1 @ prev # f # l2)" using heap_sorted [OF ok] cut by simp
  have flD: "x = base s \<or> x \<in> set bs" if "x \<in> set (l1 @ prev # f # l2)" for x
  proof -
    from that have "x \<in> set (base s # bs)" by (simp only: cut)
    then show ?thesis by simp
  qed
  have fbs: "f \<in> set bs"
  proof -
    have "f = base s \<or> f \<in> set bs" by (rule flD) simp
    moreover have "base s \<in> set (l1 @ [prev])" using cut by (cases l1) auto
    then have "base s < f" using sfl by (auto simp: sorted_wrt_append)
    ultimately show ?thesis by auto
  qed
  then have inf: "in_pool s f" using inp by simp
  note fb = in_pool_bounds [OF lay inf]
  have vh: "vhdr s x" if "x \<in> set (l1 @ prev # f # l2) \<or> x \<in> set al" for x
  proof -
    from that flD [of x] have "x \<in> set (base s # bs @ al)" by auto
    then show ?thesis by (rule heap_vhdr [OF ok])
  qed
  have sz: "hdr_size m' x = hdr_size m x" if "vhdr s x" for x
  proof (cases "x = prev")
    case True
    then show ?thesis by (simp add: m'_def)
  next
    case False
    then have "hdr_sep prev x" using vhdr_sep [OF lay vh that] by simp
    then show ?thesis by (simp add: m'_def fields_other)
  qed
  have nx: "hdr_next m' x = hdr_next m x" if "vhdr s x" "x \<noteq> prev" for x
  proof -
    have "hdr_sep prev x" using vhdr_sep [OF lay vh that(1)] that(2) by simp
    then show ?thesis by (simp add: m'_def fields_other)
  qed
  define bs' where "bs' = tl (l1 @ prev # l2)"
  have hd': "l1 @ prev # l2 = base s # bs'"
    using cut by (cases l1) (auto simp: bs'_def)
  have sub: "set bs' \<subseteq> set bs" "f \<notin> set bs'"
  proof -
    have s2: "sorted_wrt (<) (base s # bs')" unfolding hd' [symmetric] using sfl
      by (auto simp: sorted_wrt_append)
    have "x \<in> set bs" if "x \<in> set bs'" for x
    proof -
      from that have "x \<in> set (base s # bs')" by simp
      then have "x \<in> set (l1 @ prev # l2)" by (simp only: hd')
      then have "x = base s \<or> x \<in> set bs" by (intro flD) auto
      moreover have "x \<noteq> base s" using s2 that by auto
      ultimately show ?thesis by simp
    qed
    then show "set bs' \<subseteq> set bs" by blast
    have "f \<notin> set (l1 @ prev # l2)" using sfl by (auto simp: sorted_wrt_append)
    then show "f \<notin> set bs'" unfolding hd' by simp
  qed
  have i2: "path m' (base s) (base s # bs') (base s)"
  proof -
    from cyc obtain y where "path m (base s) l1 y" "path m y (prev # f # l2) (base s)"
      unfolding cut path_append by blast
    then have p1: "path m (base s) l1 prev" and p2: "path m (hdr_next m f) l2 (base s)" by simp_all
    have "path m' (base s) l1 prev = path m (base s) l1 prev"
    proof (rule path_frame, rule ballI)
      fix x assume "x \<in> set l1"
      then have "vhdr s x" "x \<noteq> prev" using vh sfl by (auto simp: sorted_wrt_append)
      then show "hdr_next m' x = hdr_next m x" by (rule nx)
    qed
    moreover have "path m' (hdr_next m f) l2 (base s) = path m (hdr_next m f) l2 (base s)"
    proof (rule path_frame, rule ballI)
      fix x assume "x \<in> set l2"
      then have "vhdr s x" "x \<noteq> prev" using vh sfl by (auto simp: sorted_wrt_append)
      then show "hdr_next m' x = hdr_next m x" by (rule nx)
    qed
    moreover have "hdr_next m' prev = hdr_next m f" by (simp add: m'_def)
    ultimately have "\<exists>y. path m' (base s) l1 y \<and> path m' y (prev # l2) (base s)"
      using p1 p2 by auto
    then have "path m' (base s) (l1 @ prev # l2) (base s)" by (rule path_append [THEN iffD2])
    then show ?thesis unfolding hd' .
  qed
  have same: "in_pool s' x = in_pool s x \<and> blk_end m' x = blk_end m x" if "x \<in> set bs \<or> x \<in> set al" for x
  proof -
    have "vhdr s x" using that heap_vhdr [OF ok, of x] by auto
    from sz [OF this] show ?thesis by (simp add: in_pool_def s'_def blk_end_def m_def m'_def)
  qed
  have "heap_ok s' bs' (f # al)"
    unfolding heap_ok_def
  proof (intro conjI)
    show "layout_ok s'" using lay by (simp add: layout_ok_def s'_def)
    show "path (mem s') (base s') (base s' # bs') (base s')" using i2 by (simp add: s'_def m_def m'_def)
    show "hdr_size (mem s') (base s') = 0"
      using sz [of "base s"] z by (simp add: s'_def m_def m'_def vhdr_def)
    show "freep s' \<in> set (base s' # bs')"
    proof -
      have "prev \<in> set (l1 @ prev # l2)" by simp
      then have "prev \<in> set (base s # bs')" by (simp only: hd')
      then show ?thesis by (simp add: s'_def)
    qed
    show "\<forall>x\<in>set (bs' @ f # al). in_pool s' x"
      using sub fbs inp same by auto
    show "sorted_wrt (<) bs'"
    proof -
      have "sorted_wrt (<) (base s # bs')" unfolding hd' [symmetric] using sfl
        by (auto simp: sorted_wrt_append)
      then show ?thesis by simp
    qed
    show "\<forall>x\<in>set (f # al). x \<notin> set bs'" using sub disj by auto
    show "\<forall>x\<in>set (bs' @ f # al). \<forall>y\<in>set (bs' @ f # al). x \<noteq> y \<longrightarrow> apart (mem s') x y"
    proof (intro ballI impI)
      fix x y assume "x \<in> set (bs' @ f # al)" "y \<in> set (bs' @ f # al)" "x \<noteq> y"
      then have x: "x \<in> set bs \<or> x \<in> set al" and y: "y \<in> set bs \<or> y \<in> set al" and "x \<noteq> y"
        using sub fbs by auto
      then have "apart m x y" using apt by auto
      then show "apart (mem s') x y" using same [OF x] same [OF y]
        by (simp add: apart_def s'_def m_def m'_def)
    qed
  qed
  then show "\<exists>bs'. heap_ok s' bs' (f # al)" by blast
  show "f \<notin> set al" using disj fbs by auto
  show "hdr_size (mem s') f = nq" using sz [of f] vh nq by (simp add: s'_def m_def m'_def)
  show "\<forall>x\<in>set al. hdr_size (mem s') x = hdr_size (mem s) x"
    using sz vh by (simp add: s'_def m_def m'_def)
  have "unat f + 16 < 2 ^ 64" using fb(2,4) by (simp add: blk_end_def)
  from taken_ptr [OF this] show "hdr_plus f 1 \<noteq> 0" "hdr_plus f 1 - 16 = f" by simp_all
qed

text \<open>Carving the high end of a larger free block.\<close>

lemma split_ok:
  assumes ok: "heap_ok s bs al"
    and fbs: "f \<in> set bs" and pm: "prev \<in> set (base s # bs)"
    and big: "nq < hdr_size (mem s) f" and nz: "nq \<noteq> 0"
  defines "r \<equiv> hdr_plus f (hdr_size (mem s) f - nq)"
  defines "s' \<equiv> s\<lparr>mem := set_size (set_size (mem s) f (hdr_size (mem s) f - nq)) r nq,
                    freep := prev\<rparr>"
  shows "heap_ok s' bs (r # al)" "r \<notin> set al" "hdr_size (mem s') r = nq"
    "\<forall>x\<in>set al. hdr_size (mem s') x = hdr_size (mem s) x" "hdr_plus r 1 \<noteq> 0" "hdr_plus r 1 - 16 = r"
proof -
  define m where "m = mem s"
  define rem where "rem = hdr_size m f - nq"
  define m' where "m' = set_size (set_size m f rem) r nq"
  from ok have lay: "layout_ok s" and cyc: "path m (base s) (base s # bs) (base s)"
    and z: "hdr_size m (base s) = 0"
    and inp: "\<forall>x\<in>set (bs @ al). in_pool s x"
    and srt: "sorted_wrt (<) bs"
    and disj: "\<forall>x\<in>set al. x \<notin> set bs"
    and apt: "\<forall>x\<in>set (bs @ al). \<forall>y\<in>set (bs @ al). x \<noteq> y \<longrightarrow> apart m x y"
    unfolding heap_ok_def m_def by auto
  have inf: "in_pool s f" using inp fbs by simp
  note fb = in_pool_bounds [OF lay inf]
  have inF: "in_pool s x" if "x \<in> set bs \<or> x \<in> set al" for x using inp that by auto
  have nonempty: "unat x < blk_end m x" if "x \<in> set bs \<or> x \<in> set al" for x
    using in_pool_bounds(4) [OF lay inF [OF that]] by (simp add: m_def)
  \<comment> \<open>the numbers\<close>
  have unq: "unat nq < unat (hdr_size m f)" "0 < unat nq"
    using big nz by (simp_all add: word_less_nat_alt m_def unat_gt_0)
  have urem: "unat rem = unat (hdr_size m f) - unat nq"
    using unq by (simp add: rem_def unat_sub_if')
  have r: "r = hdr_plus f rem" by (simp add: r_def rem_def m_def)
  have ur: "unat r = unat f + 16 * unat rem"
    unfolding r using fb(2) urem by (intro unat_hdr_plus) (simp add: blk_end_def m_def)
  have rend: "unat r + 16 * unat nq = blk_end m f"
    using ur urem unq by (simp add: blk_end_def)
  have rin: "unat f < unat r" "unat r < blk_end m f" using ur urem unq rend by simp_all
  have al_r: "unat (pool s) \<le> unat r" "16 dvd (unat r - unat (pool s))"
  proof -
    from inf have a: "unat (pool s) \<le> unat f" "16 dvd (unat f - unat (pool s))"
      by (simp_all add: in_pool_def)
    then obtain k where k: "unat f = unat (pool s) + 16 * k"
      by (metis dvd_def le_add_diff_inverse)
    have "unat r = unat (pool s) + 16 * (k + unat rem)" using ur k by simp
    then show "unat (pool s) \<le> unat r" "16 dvd (unat r - unat (pool s))" by simp_all
  qed
  have vr: "vhdr s r"
  proof -
    from inf have "blk_end m f \<le> unat (pool s) + unat (pool_free_pos s)"
      by (simp add: in_pool_def m_def)
    moreover have "unat (pool_free_pos s) \<le> unat (POOL_SIZE s)" using lay by (simp add: layout_ok_def)
    ultimately have "unat r \<le> unat (pool s) + unat (POOL_SIZE s)" using rin by simp
    then show ?thesis using al_r by (simp add: vhdr_def)
  qed
  have rne: "r \<noteq> x" if "x \<in> set (base s # bs @ al)" for x
  proof (cases "x = base s")
    case True
    then show ?thesis using fb(1) rin by auto
  next
    case False
    then have x: "x \<in> set bs \<or> x \<in> set al" using that by auto
    show ?thesis
    proof (cases "x = f")
      case True
      then show ?thesis using rin by auto
    next
      case False
      then have "apart m f x" using apt x fbs by auto
      then show ?thesis using rin nonempty [OF x] by (auto simp: apart_def)
    qed
  qed
  have vf: "vhdr s f" using heap_vhdr [OF ok, of f] fbs by simp
  have sep_rf: "hdr_sep r f" using vhdr_sep [OF lay vr vf] rne [of f] fbs by simp
  have nx: "hdr_next m' x = hdr_next m x" if "x \<in> set (base s # bs @ al)" for x
  proof (cases "x = f")
    case True
    then show ?thesis using sep_rf by (simp add: m'_def fields_other)
  next
    case False
    have vx: "vhdr s x" by (rule heap_vhdr [OF ok that])
    have "hdr_sep f x" "hdr_sep r x" using vhdr_sep [OF lay _ vx] vf vr False rne [OF that] by auto
    then show ?thesis by (simp add: m'_def fields_other)
  qed
  have szf: "hdr_size m' f = rem" using sep_rf by (simp add: m'_def fields_other)
  have szr: "hdr_size m' r = nq" by (simp add: m'_def)
  have sz: "hdr_size m' x = hdr_size m x" if "x \<in> set (base s # bs @ al)" "x \<noteq> f" for x
  proof -
    have vx: "vhdr s x" by (rule heap_vhdr [OF ok that(1)])
    have "hdr_sep f x" "hdr_sep r x" using vhdr_sep [OF lay _ vx] vf vr that(2) rne [OF that(1)] by auto
    then show ?thesis by (simp add: m'_def fields_other)
  qed
  have endf: "blk_end m' f = unat r" using szf ur by (simp add: blk_end_def)
  have endr: "blk_end m' r = blk_end m f" using szr rend by (simp add: blk_end_def)
  have same: "blk_end m' x = blk_end m x" if "x \<in> set bs \<or> x \<in> set al" "x \<noteq> f" for x
    using sz [of x] that by (auto simp: blk_end_def)
  have ms: "mem s' = m'" "pool s' = pool s" "pool_free_pos s' = pool_free_pos s" "base s' = base s"
    "freep s' = prev"
    by (simp_all add: s'_def m'_def m_def rem_def)
  show "heap_ok s' bs (r # al)"
    unfolding heap_ok_def ms
  proof (intro conjI)
    show "layout_ok s'" using lay by (simp add: layout_ok_def s'_def)
    have "path m' (base s) (base s # bs) (base s) = path m (base s) (base s # bs) (base s)"
      by (rule path_frame) (use nx in auto)
    then show "path m' (base s) (base s # bs) (base s)" using cyc by simp
    show "hdr_size m' (base s) = 0" using sz [of "base s"] z fb(5) by simp
    show "prev \<in> set (base s # bs)" by (rule pm)
    show "\<forall>x\<in>set (bs @ r # al). in_pool s' x"
    proof
      fix x assume x: "x \<in> set (bs @ r # al)"
      consider "x = f" | "x = r" | "x \<noteq> f" "x \<noteq> r" by blast
      then show "in_pool s' x"
      proof cases
        case 1
        then show ?thesis using inf szf endf rin urem unq
          by (simp add: in_pool_def ms m_def)
      next
        case 2
        note al_r
        then show ?thesis using 2 szr endr unq inf
          by (simp add: in_pool_def ms m_def)
      next
        case 3
        then have xx: "x \<in> set bs \<or> x \<in> set al" using x by auto
        then have "x \<in> set (base s # bs @ al)" by auto
        from sz [OF this 3(1)] same [OF xx 3(1)] inF [OF xx] show ?thesis
          by (simp add: in_pool_def ms m_def)
      qed
    qed
    show "sorted_wrt (<) bs" by (rule srt)
    show "\<forall>x\<in>set (r # al). x \<notin> set bs" using disj rne by auto
    show "\<forall>x\<in>set (bs @ r # al). \<forall>y\<in>set (bs @ r # al). x \<noteq> y \<longrightarrow> apart m' x y"
    proof (intro ballI impI)
      fix x y assume x: "x \<in> set (bs @ r # al)" and y: "y \<in> set (bs @ r # al)" and xy: "x \<noteq> y"
      have inside: "unat f \<le> unat w \<and> blk_end m' w \<le> blk_end m f" if "w = f \<or> w = r" for w
        using that endf endr rin by auto
      have old: "blk_end m' w = blk_end m w \<and> (blk_end m w \<le> unat f \<or> blk_end m f \<le> unat w) \<and>
          unat w < blk_end m w \<and> (w \<in> set bs \<or> w \<in> set al)"
        if "w \<in> set (bs @ r # al)" "w \<noteq> f" "w \<noteq> r" for w
      proof -
        have ww: "w \<in> set bs \<or> w \<in> set al" using that by auto
        then have "apart m w f" using apt fbs that(2) by auto
        then show ?thesis using same [OF ww that(2)] nonempty [OF ww] ww by (auto simp: apart_def)
      qed
      consider "x = f \<or> x = r" "y = f \<or> y = r" | "x = f \<or> x = r" "y \<noteq> f" "y \<noteq> r"
        | "x \<noteq> f" "x \<noteq> r" "y = f \<or> y = r" | "x \<noteq> f" "x \<noteq> r" "y \<noteq> f" "y \<noteq> r" by blast
      then show "apart m' x y"
      proof cases
        case 1
        then show ?thesis using xy endf by (auto simp: apart_def)
      next
        case 2
        from inside [OF 2(1)] old [OF y 2(2,3)] show ?thesis by (auto simp: apart_def)
      next
        case 3
        from inside [OF 3(3)] old [OF x 3(1,2)] show ?thesis by (auto simp: apart_def)
      next
        case 4
        from old [OF x 4(1,2)] old [OF y 4(3,4)] apt xy show ?thesis by (auto simp: apart_def)
      qed
    qed
  qed
  show "r \<notin> set al" using rne by auto
  show "hdr_size (mem s') r = nq" using szr by (simp add: ms)
  show "\<forall>x\<in>set al. hdr_size (mem s') x = hdr_size (mem s) x"
  proof
    fix x assume x: "x \<in> set al"
    then have "x \<noteq> f" using disj fbs by auto
    then show "hdr_size (mem s') x = hdr_size (mem s) x" using sz [of x] x by (simp add: ms m_def)
  qed
  have "unat r + 16 < 2 ^ 64" using rend unq fb(2) by (simp add: m_def)
  from taken_ptr [OF this] show "hdr_plus r 1 \<noteq> 0" "hdr_plus r 1 - 16 = r" by simp_all
qed

lemma alloc_found:
  assumes ok: "heap_ok s bs al" and nz: "nq \<noteq> 0"
    and big: "\<exists>x\<in>set bs. nq \<le> hdr_size (mem s) x"
  shows "\<exists>b s' bs'. alloc_loop s nq (freep s) (hdr_next (mem s) (freep s)) = Some (b + 16, s') \<and>
      b + 16 \<noteq> 0 \<and> b \<notin> set al \<and> heap_ok s' bs' (b # al) \<and> hdr_size (mem s') b = nq \<and>
      pool s' = pool s \<and> POOL_SIZE s' = POOL_SIZE s \<and> pool_free_pos s' = pool_free_pos s \<and>
      base s' = base s \<and> (\<forall>x\<in>set al. hdr_size (mem s') x = hdr_size (mem s) x)"
proof -
  define m where "m = mem s"
  from ok have cyc: "path m (base s) (base s # bs) (base s)" and z: "hdr_size m (base s) = 0"
    unfolding heap_ok_def m_def by auto
  from big have "\<exists>x\<in>set (base s # bs). nq \<le> hdr_size (mem s) x" by auto
  from heap_walk [OF ok this] obtain prev f where
    walk: "alloc_loop s nq (freep s) (hdr_next (mem s) (freep s)) = alloc_loop s nq prev f"
    and pm: "prev \<in> set (base s # bs)" and fm: "f \<in> set (base s # bs)"
    and pf: "hdr_next m prev = f" and sz: "nq \<le> hdr_size m f"
    unfolding m_def by blast
  have fb: "f \<noteq> base s"
  proof
    assume "f = base s"
    then have "nq \<le> 0" using sz z by simp
    then show False using nz by simp
  qed
  then have fbs: "f \<in> set bs" using fm by simp
  show ?thesis
  proof (cases "hdr_size m f = nq")
    case True
    from pm obtain l1 l2 where c1: "base s # bs = l1 @ prev # l2" by (meson split_list)
    have "hdr_next m prev = hd (l2 @ [base s])"
      by (rule path_succ [OF cyc [unfolded c1]])
    then have "hd (l2 @ [base s]) = f" using pf by simp
    then obtain l2' where "l2 = f # l2'" using fb by (cases l2) auto
    then have cut: "base s # bs = l1 @ prev # f # l2'" using c1 by simp
    define s' where "s' = s\<lparr>mem := set_next (mem s) prev (hdr_next (mem s) f), freep := prev\<rparr>"
    note e = exact_ok [OF ok cut True [unfolded m_def], folded s'_def]
    have "alloc_loop s nq prev f = Some (hdr_plus f 1, s')"
      unfolding s'_def using True by (intro alloc_loop_exact) (simp add: m_def)
    moreover have "hdr_plus f 1 = f + 16" by (simp add: hdr_plus_def HDR_def)
    ultimately have "alloc_loop s nq (freep s) (hdr_next (mem s) (freep s)) = Some (f + 16, s')"
      using walk by simp
    moreover from e(1) obtain bs' where "heap_ok s' bs' (f # al)" by blast
    moreover have "f + 16 \<noteq> 0" using e(5) by (simp add: hdr_plus_def HDR_def)
    moreover have "pool s' = pool s \<and> POOL_SIZE s' = POOL_SIZE s \<and>
        pool_free_pos s' = pool_free_pos s \<and> base s' = base s" by (simp add: s'_def)
    ultimately show ?thesis using e(2,3,4) by blast
  next
    case False
    then have lt: "nq < hdr_size (mem s) f" using sz by (simp add: m_def)
    define r where "r = hdr_plus f (hdr_size (mem s) f - nq)"
    define s' where "s' = s\<lparr>mem := set_size (set_size (mem s) f (hdr_size (mem s) f - nq)) r nq,
                    freep := prev\<rparr>"
    note e = split_ok [OF ok fbs pm lt nz, folded r_def, folded s'_def]
    have "alloc_loop s nq prev f = Some (hdr_plus r 1, s')"
      unfolding s'_def r_def by (rule alloc_loop_split [OF lt])
    moreover have "hdr_plus r 1 = r + 16" by (simp add: hdr_plus_def HDR_def)
    ultimately have "alloc_loop s nq (freep s) (hdr_next (mem s) (freep s)) = Some (r + 16, s')"
      using walk by simp
    moreover have "r + 16 \<noteq> 0" using e(5) by (simp add: hdr_plus_def HDR_def)
    moreover have "pool s' = pool s \<and> POOL_SIZE s' = POOL_SIZE s \<and>
        pool_free_pos s' = pool_free_pos s \<and> base s' = base s" by (simp add: s'_def)
    ultimately show ?thesis using e(1,2,3,4) by blast
  qed
qed

text \<open>When no free block is large enough the walk comes back to \<^verbatim>\<open>freep\<close> and asks the pool.\<close>

lemma alloc_none:
  assumes ok: "heap_ok s bs al"
    and small: "\<forall>x\<in>set (base s # bs). hdr_size (mem s) x < nq"
  shows "alloc_loop s nq (freep s) (hdr_next (mem s) (freep s)) =
    (case get_mem_from_pool s nq of
       None \<Rightarrow> None
     | Some (p2, s2) \<Rightarrow>
         if p2 = 0 then Some (0, s2) else alloc_loop s2 nq p2 (hdr_next (mem s2) p2))"
proof -
  define m where "m = mem s"
  define fp where "fp = freep s"
  from ok have cyc: "path m (base s) (base s # bs) (base s)"
    and fpm: "fp \<in> set (base s # bs)"
    unfolding heap_ok_def m_def fp_def by auto
  have dist: "distinct (base s # bs)"
    using heap_sorted [OF ok] strict_sorted_iff [of "base s # bs"] by blast
  from fpm obtain pre post where cut: "base s # bs = pre @ fp # post" by (meson split_list)
  from cyc obtain y where "path m (base s) pre y" "path m y (fp # post) (base s)"
    unfolding cut path_append by blast
  then have p1: "path m (base s) pre fp" and p2: "path m (hdr_next m fp) post (base s)" by simp_all
  then have pv: "path m (hdr_next m fp) (post @ pre) fp" unfolding path_append by blast
  have nfp: "fp \<notin> set (post @ pre)" using dist unfolding cut by auto
  have sm: "hdr_size m x < nq" if "x \<in> set (pre @ fp # post)" for x
  proof -
    from that have "x \<in> set (base s # bs)" by (simp only: cut)
    then show ?thesis using small unfolding m_def by blast
  qed
  have "alloc_loop s nq fp (hdr_next m fp) = alloc_loop s nq (last (fp # post @ pre)) fp"
  proof (rule alloc_loop_walk)
    show "path (mem s) (hdr_next m fp) (post @ pre) fp" using pv by (simp add: m_def)
    show "\<forall>a\<in>set (post @ pre). hdr_size (mem s) a < nq \<and> a \<noteq> freep s"
      using sm nfp by (auto simp: m_def fp_def)
  qed
  also have "\<dots> = (case get_mem_from_pool s nq of
       None \<Rightarrow> None
     | Some (p2, s2) \<Rightarrow>
         if p2 = 0 then Some (0, s2) else alloc_loop s2 nq p2 (hdr_next (mem s2) p2))"
  proof -
    have "\<not> nq \<le> hdr_size (mem s) fp" using sm [of fp] by (simp add: m_def not_le)
    then show ?thesis by (subst alloc_loop.simps) (simp add: fp_def)
  qed
  finally show ?thesis by (simp add: m_def fp_def)
qed

lemma memmgr_free_pos:
  "memmgr_free (s\<lparr>pool_free_pos := p\<rparr>) ap =
     map_option (\<lambda>t. t\<lparr>pool_free_pos := p\<rparr>) (memmgr_free s ap)"
  by (simp add: memmgr_free_def Let_def split: option.splits)

lemma pool_test:
  assumes "unat (pool_free_pos s) + 16 * carve_quanta nq < 2 ^ 64"
  defines "nq' \<equiv> (if nq < MIN_POOL_ALLOC_QUANTAS then MIN_POOL_ALLOC_QUANTAS else nq)"
  shows "unat nq' = carve_quanta nq"
    and "unat (nq' * HDR) = 16 * carve_quanta nq"
    and "unat (pool_free_pos s + nq' * HDR) = unat (pool_free_pos s) + 16 * carve_quanta nq"
    and "pool_free_pos s + nq' * HDR \<le> POOL_SIZE s \<longleftrightarrow>
           unat (pool_free_pos s) + 16 * carve_quanta nq \<le> unat (POOL_SIZE s)"
proof -
  show 1: "unat nq' = carve_quanta nq"
    by (auto simp: nq'_def carve_quanta_def MIN_POOL_ALLOC_QUANTAS_def word_less_nat_alt max_def)
  have "unat nq' * unat (16 :: ulong) < 2 ^ LENGTH(64)" using assms(1) 1 by simp
  then have "unat (nq' * 16) = unat nq' * unat (16 :: ulong)"
    by (simp only: unat_mult_lem [THEN iffD1])
  then show 2: "unat (nq' * HDR) = 16 * carve_quanta nq" using 1 by (simp add: HDR_def)
  have "unat (pool_free_pos s) + unat (nq' * HDR) < 2 ^ LENGTH(64)" using assms(1) 2 by simp
  then have "unat (pool_free_pos s + nq' * HDR) = unat (pool_free_pos s) + unat (nq' * HDR)"
    by (simp only: unat_add_lem [THEN iffD1])
  then show 3: "unat (pool_free_pos s + nq' * HDR) = unat (pool_free_pos s) + 16 * carve_quanta nq"
    using 2 by simp
  show "pool_free_pos s + nq' * HDR \<le> POOL_SIZE s \<longleftrightarrow>
           unat (pool_free_pos s) + 16 * carve_quanta nq \<le> unat (POOL_SIZE s)"
    by (simp only: word_le_nat_alt 3)
qed

lemma pool_exhausted:
  assumes "unat (pool_free_pos s) + 16 * carve_quanta nq < 2 ^ 64"
    and "unat (POOL_SIZE s) < unat (pool_free_pos s) + 16 * carve_quanta nq"
  shows "get_mem_from_pool s nq = Some (0, s)"
  using pool_test(4) [OF assms(1)] assms(2) by (simp add: get_mem_from_pool_def Let_def)

lemma carve_ok:
  assumes ok: "heap_ok s bs al"
    and room: "unat (pool_free_pos s) + 16 * carve_quanta nq \<le> unat (POOL_SIZE s)"
  shows "\<exists>s3 bs'. get_mem_from_pool s nq = Some (freep s3, s3) \<and> freep s3 \<noteq> 0 \<and>
      heap_ok s3 bs' al \<and>
      unat (pool_free_pos s3) = unat (pool_free_pos s) + 16 * carve_quanta nq \<and>
      pool s3 = pool s \<and> POOL_SIZE s3 = POOL_SIZE s \<and> base s3 = base s \<and>
      (\<exists>f\<in>set bs'. nq \<le> hdr_size (mem s3) f) \<and>
      (\<forall>x\<in>set al. hdr_size (mem s3) x = hdr_size (mem s) x)"
proof -
  define m where "m = mem s"
  define nq' where "nq' = (if nq < MIN_POOL_ALLOC_QUANTAS then MIN_POOL_ALLOC_QUANTAS else nq)"
  define pos' where "pos' = pool_free_pos s + nq' * HDR"
  define h where "h = pool s + pool_free_pos s"
  define cq where "cq = carve_quanta nq"
  from ok have lay: "layout_ok s" and cyc: "path m (base s) (base s # bs) (base s)"
    and z: "hdr_size m (base s) = 0" and fp: "freep s \<in> set (base s # bs)"
    and inp: "\<forall>x\<in>set (bs @ al). in_pool s x"
    and srt: "sorted_wrt (<) bs" and disj: "\<forall>x\<in>set al. x \<notin> set bs"
    and apt: "\<forall>x\<in>set (bs @ al). \<forall>y\<in>set (bs @ al). x \<noteq> y \<longrightarrow> apart m x y"
    unfolding heap_ok_def m_def by auto
  have "unat (POOL_SIZE s) < 2 ^ 64" using unsigned_less [of "POOL_SIZE s"] by simp
  then have nowrap: "unat (pool_free_pos s) + 16 * carve_quanta nq < 2 ^ 64"
    using room by simp
  note pt = pool_test [OF nowrap, folded nq'_def, folded pos'_def cq_def]
  have cq16: "16 \<le> cq" "unat nq \<le> cq" by (simp_all add: cq_def carve_quanta_def)
  have uh: "unat h = unat (pool s) + unat (pool_free_pos s)"
  proof -
    have "unat (pool s) + unat (pool_free_pos s) < 2 ^ LENGTH(64)"
      using lay by (simp add: layout_ok_def)
    then show ?thesis unfolding h_def by (simp only: unat_add_lem [THEN iffD1])
  qed
  have inF: "in_pool s x" if "x \<in> set bs \<or> x \<in> set al" for x using inp that by auto
  have below: "blk_end m x \<le> unat h \<and> unat x < blk_end m x" if "x \<in> set bs \<or> x \<in> set al" for x
    using inF [OF that] uh by (simp add: in_pool_def m_def blk_end_def)
  have vh: "vhdr s h"
    using lay uh room by (simp add: vhdr_def layout_ok_def)
  have hne: "x \<noteq> h" if "x \<in> set (base s # bs @ al)" for x
  proof (cases "x = base s")
    case True
    then show ?thesis using lay uh by (auto simp: layout_ok_def)
  next
    case False
    then have "x \<in> set bs \<or> x \<in> set al" using that by auto
    from below [OF this] show ?thesis by auto
  qed
  define m1 where "m1 = set_size m h nq'"
  have nx: "hdr_next m1 x = hdr_next m x" if "x \<in> set (base s # bs @ al)" for x
  proof -
    have "hdr_sep h x" using vhdr_sep [OF lay vh heap_vhdr [OF ok that]] hne [OF that] by auto
    then show ?thesis by (simp add: m1_def fields_other)
  qed
  have sz: "hdr_size m1 x = hdr_size m x" if "x \<in> set (base s # bs @ al)" for x
  proof -
    have "hdr_sep h x" using vhdr_sep [OF lay vh heap_vhdr [OF ok that]] hne [OF that] by auto
    then show ?thesis by (simp add: m1_def fields_other)
  qed
  have szh: "hdr_size m1 h = nq'" by (simp add: m1_def)
  have endh: "blk_end m1 h = unat h + 16 * cq" using szh pt(1) by (simp add: blk_end_def)
  define t1 where "t1 = s\<lparr>mem := m1, pool_free_pos := pos'\<rparr>"
  have t1: "mem t1 = m1" "pool t1 = pool s" "POOL_SIZE t1 = POOL_SIZE s" "base t1 = base s"
    "freep t1 = freep s" "pool_free_pos t1 = pos'"
    by (simp_all add: t1_def)
  have ok1: "heap_ok t1 bs (h # al)"
    unfolding heap_ok_def t1
  proof (intro conjI)
    show "layout_ok t1"
      using lay pt(3) room by (simp add: layout_ok_def t1 cq_def)
    have "path m1 (base s) (base s # bs) (base s) = path m (base s) (base s # bs) (base s)"
      by (rule path_frame) (use nx in auto)
    then show "path m1 (base s) (base s # bs) (base s)" using cyc by simp
    show "hdr_size m1 (base s) = 0" using sz [of "base s"] z by simp
    show "freep s \<in> set (base s # bs)" by (rule fp)
    show "\<forall>x\<in>set (bs @ h # al). in_pool t1 x"
    proof
      fix x assume x: "x \<in> set (bs @ h # al)"
      show "in_pool t1 x"
      proof (cases "x = h")
        case True
        have "16 dvd unat (pool_free_pos s)" using lay by (simp add: layout_ok_def)
        then show ?thesis using True uh endh szh pt(1,3) cq16
          by (simp add: in_pool_def t1 cq_def)
      next
        case False
        then have xx: "x \<in> set bs \<or> x \<in> set al" using x by auto
        then have "x \<in> set (base s # bs @ al)" by auto
        from sz [OF this] inF [OF xx] pt(3) show ?thesis
          by (simp add: in_pool_def t1 m_def blk_end_def)
      qed
    qed
    show "sorted_wrt (<) bs" by (rule srt)
    show "\<forall>x\<in>set (h # al). x \<notin> set bs" using disj hne by auto
    show "\<forall>x\<in>set (bs @ h # al). \<forall>y\<in>set (bs @ h # al). x \<noteq> y \<longrightarrow> apart m1 x y"
    proof (intro ballI impI)
      fix x y assume x: "x \<in> set (bs @ h # al)" and y: "y \<in> set (bs @ h # al)" and xy: "x \<noteq> y"
      have old: "blk_end m1 w = blk_end m w \<and> blk_end m w \<le> unat h \<and> (w \<in> set bs \<or> w \<in> set al)"
        if "w \<in> set (bs @ h # al)" "w \<noteq> h" for w
      proof -
        have ww: "w \<in> set bs \<or> w \<in> set al" using that by auto
        then have "w \<in> set (base s # bs @ al)" by auto
        from sz [OF this] below [OF ww] ww show ?thesis by (simp add: blk_end_def)
      qed
      consider "x = h" "y \<noteq> h" | "y = h" "x \<noteq> h" | "x \<noteq> h" "y \<noteq> h" using xy by blast
      then show "apart m1 x y"
      proof cases
        case 1
        then show ?thesis using old [OF y] by (simp add: apart_def)
      next
        case 2
        then show ?thesis using old [OF x] by (simp add: apart_def)
      next
        case 3
        from old [OF x 3(1)] old [OF y 3(2)] apt xy show ?thesis by (auto simp: apart_def)
      qed
    qed
  qed
  have hal: "filter (\<lambda>x. x \<noteq> h) (h # al) = al"
    using hne by (auto intro: filter_True)
  have hin: "h \<in> set (h # al)" by simp
  from free_ok [OF ok1 hin] obtain s' bs' f where
    fr: "memmgr_free t1 (h + 16) = Some s'" and ok': "heap_ok s' bs' al"
    and frame: "pool s' = pool s" "POOL_SIZE s' = POOL_SIZE s" "pool_free_pos s' = pos'" "base s' = base s"
    and f: "f \<in> set bs'" "unat f \<le> unat h" "blk_end m1 h \<le> blk_end (mem s') f"
    and keep0: "\<forall>x\<in>set (h # al). x \<noteq> h \<longrightarrow> hdr_size (mem s') x = hdr_size m1 x"
    unfolding hal t1 by blast
  have keep: "\<forall>x\<in>set al. hdr_size (mem s') x = hdr_size m1 x"
    using keep0 hne by auto
  \<comment> \<open>what the code computes\<close>
  have s1: "s\<lparr>mem := set_size (mem s) h nq'\<rparr> = t1\<lparr>pool_free_pos := pool_free_pos s\<rparr>"
    by (simp add: t1_def m1_def m_def)
  have hp: "hdr_plus h 1 = h + 16" by (simp add: hdr_plus_def HDR_def)
  have "memmgr_free (s\<lparr>mem := set_size (mem s) h nq'\<rparr>) (hdr_plus h 1) =
      Some (s'\<lparr>pool_free_pos := pool_free_pos s\<rparr>)"
    unfolding s1 hp memmgr_free_pos fr by simp
  moreover have "pool_free_pos s + nq' * HDR \<le> POOL_SIZE s"
    using pt(4) room by (simp add: cq_def pos'_def)
  moreover have "s'\<lparr>pool_free_pos := pool_free_pos s, pool_free_pos := pos'\<rparr> = s'"
    using frame(3) by simp
  ultimately have g: "get_mem_from_pool s nq = Some (freep s', s')"
    by (simp add: get_mem_from_pool_def Let_def nq'_def [symmetric] h_def [symmetric] pos'_def [symmetric])
  have lay': "layout_ok s'" and fp': "freep s' \<in> set (base s' # bs')"
    and inp': "\<forall>x\<in>set bs'. in_pool s' x"
    using ok' unfolding heap_ok_def by auto
  have "freep s' \<noteq> 0"
  proof (cases "freep s' = base s'")
    case True
    then show ?thesis using lay' by (simp add: layout_ok_def)
  next
    case False
    then have "in_pool s' (freep s')" using fp' inp' by auto
    from in_pool_bounds(6) [OF lay' this] show ?thesis .
  qed
  moreover have "nq \<le> hdr_size (mem s') f"
  proof -
    have "16 * cq \<le> 16 * unat (hdr_size (mem s') f)"
      using f(2,3) endh by (simp add: blk_end_def)
    then show ?thesis using cq16 by (simp add: word_le_nat_alt)
  qed
  moreover have "\<forall>x\<in>set al. hdr_size (mem s') x = hdr_size (mem s) x"
    using keep sz by (simp add: m_def)
  moreover have "unat (pool_free_pos s') = unat (pool_free_pos s) + 16 * carve_quanta nq"
    using frame(3) pt(3) by (simp add: cq_def)
  ultimately show ?thesis using g ok' frame f(1) by blast
qed

lemma heap_seeded:
  assumes "heap_ok s bs al"
  shows "seed_free_list s = s"
proof -
  from assms have lay: "layout_ok s" and fp: "freep s \<in> set (base s # bs)"
    and inp: "\<forall>x\<in>set bs. in_pool s x"
    unfolding heap_ok_def by auto
  have "freep s \<noteq> 0"
  proof (cases "freep s = base s")
    case True
    then show ?thesis using lay by (simp add: layout_ok_def)
  next
    case False
    then have "in_pool s (freep s)" using fp inp by auto
    from in_pool_bounds(6) [OF lay this] show ?thesis .
  qed
  then show ?thesis by (simp add: seed_free_list_def)
qed

lemma seed_fields:
  "pool (seed_free_list s) = pool s" "POOL_SIZE (seed_free_list s) = POOL_SIZE s"
  "pool_free_pos (seed_free_list s) = pool_free_pos s" "base (seed_free_list s) = base s"
  by (simp_all add: seed_free_list_def)

lemma malloc_loop:
  "malloc s n = alloc_loop (seed_free_list s) (nquantas_of n) (freep (seed_free_list s))
       (hdr_next (mem (seed_free_list s)) (freep (seed_free_list s)))"
  by (simp add: malloc_def memmgr_alloc_def Let_def)

lemma nquantas_pos: "nquantas_of n \<noteq> 0"
proof -
  have "unat ((n + 15) div 16) = unat (n + 15) div 16" by (simp add: unat_div)
  moreover have "unat (n + 15) < 2 ^ 64" using unsigned_less [of "n + 15"] by simp
  ultimately have "unat ((n + 15) div 16) + unat (1 :: ulong) < 2 ^ LENGTH(64)" by simp
  then have "unat ((n + 15) div 16 + 1) = unat ((n + 15) div 16) + 1"
    by (simp add: unat_add_lem [THEN iffD1])
  then have ne: "(n + 15) div 16 + 1 \<noteq> 0" by (auto simp: word_unat_eq_iff)
  have h: "n + HDR - 1 = n + 15" "HDR = 16" by (simp_all add: HDR_def)
  have e: "nquantas_of n = (n + 15) div 16 + 1"
    unfolding nquantas_of_def h(1) by (simp only: h(2))
  show ?thesis unfolding e by (rule ne)
qed

text \<open>What \<open>malloc\<close> does on a well-formed heap, for a request whose sizes do not wrap.\<close>

lemma malloc_cases:
  assumes ok: "heap_ok (seed_free_list s) bs al"
    and nowrap: "unat (pool_free_pos s) + 16 * carve_quanta (nquantas_of n) < 2 ^ 64"
  defines "nq \<equiv> nquantas_of n"
  defines "s1 \<equiv> seed_free_list s"
  shows "(malloc s n = Some (0, s1) \<and> (\<forall>x\<in>set bs. hdr_size (mem s1) x < nq) \<and>
          unat (POOL_SIZE s) < unat (pool_free_pos s) + 16 * carve_quanta nq) \<or>
         (\<exists>b s' bs'. malloc s n = Some (b + 16, s') \<and> b + 16 \<noteq> 0 \<and> b \<notin> set al \<and>
            heap_ok s' bs' (b # al) \<and> hdr_size (mem s') b = nq \<and>
            pool s' = pool s \<and> POOL_SIZE s' = POOL_SIZE s \<and> base s' = base s \<and>
            (\<forall>x\<in>set al. hdr_size (mem s') x = hdr_size (mem s1) x) \<and>
            (if \<exists>x\<in>set bs. nq \<le> hdr_size (mem s1) x
             then pool_free_pos s' = pool_free_pos s
             else unat (POOL_SIZE s) \<ge> unat (pool_free_pos s) + 16 * carve_quanta nq \<and>
                  unat (pool_free_pos s') = unat (pool_free_pos s) + 16 * carve_quanta nq))"
proof (cases "\<exists>x\<in>set bs. nq \<le> hdr_size (mem s1) x")
  case True
  from alloc_found [OF ok nquantas_pos [of n], folded nq_def s1_def, OF True]
  show ?thesis unfolding malloc_loop nq_def [symmetric] s1_def [symmetric]
    using True by (simp add: s1_def seed_fields) blast
next
  case False
  have z: "hdr_size (mem s1) (base s1) = 0" using ok unfolding heap_ok_def s1_def by simp
  have "nq \<noteq> 0" unfolding nq_def by (rule nquantas_pos)
  then have "hdr_size (mem s1) (base s1) < nq" using z by (simp add: word_neq_0_conv)
  then have small: "\<forall>x\<in>set (base s1 # bs). hdr_size (mem s1) x < nq"
    using False by (auto simp: not_le)
  note loop = alloc_none [OF ok [folded s1_def] small]
  show ?thesis
  proof (cases "unat (pool_free_pos s) + 16 * carve_quanta nq \<le> unat (POOL_SIZE s)")
    case True
    then have room: "unat (pool_free_pos s1) + 16 * carve_quanta nq \<le> unat (POOL_SIZE s1)"
      by (simp add: s1_def seed_fields)
    from carve_ok [OF ok [folded s1_def] room] obtain s3 bs3 where
      g: "get_mem_from_pool s1 nq = Some (freep s3, s3)" and nz: "freep s3 \<noteq> 0"
      and ok3: "heap_ok s3 bs3 al"
      and pos3: "unat (pool_free_pos s3) = unat (pool_free_pos s1) + 16 * carve_quanta nq"
      and fr3: "pool s3 = pool s1" "POOL_SIZE s3 = POOL_SIZE s1" "base s3 = base s1"
      and big3: "\<exists>f\<in>set bs3. nq \<le> hdr_size (mem s3) f"
      and keep3: "\<forall>x\<in>set al. hdr_size (mem s3) x = hdr_size (mem s1) x"
      by blast
    from alloc_found [OF ok3 \<open>nq \<noteq> 0\<close> big3] obtain b s' bs' where
      a: "alloc_loop s3 nq (freep s3) (hdr_next (mem s3) (freep s3)) = Some (b + 16, s')"
      and r: "b + 16 \<noteq> 0" "b \<notin> set al" "heap_ok s' bs' (b # al)" "hdr_size (mem s') b = nq"
        "pool s' = pool s3" "POOL_SIZE s' = POOL_SIZE s3" "pool_free_pos s' = pool_free_pos s3"
        "base s' = base s3" "\<forall>x\<in>set al. hdr_size (mem s') x = hdr_size (mem s3) x"
      by blast
    have "malloc s n = Some (b + 16, s')"
      unfolding malloc_loop nq_def [symmetric] s1_def [symmetric] loop g using nz a by simp
    moreover have "\<forall>x\<in>set al. hdr_size (mem s') x = hdr_size (mem s1) x" using r(9) keep3 by simp
    moreover have "unat (pool_free_pos s') = unat (pool_free_pos s) + 16 * carve_quanta nq"
      using r(7) pos3 by (simp add: s1_def seed_fields)
    moreover have "pool s' = pool s \<and> POOL_SIZE s' = POOL_SIZE s \<and> base s' = base s"
      using r(5,6,8) fr3 by (simp add: s1_def seed_fields)
    ultimately show ?thesis using r(1,2,3,4) False True by auto
  next
    case False
    then have full: "unat (POOL_SIZE s) < unat (pool_free_pos s) + 16 * carve_quanta nq" by simp
    have "get_mem_from_pool s1 nq = Some (0, s1)"
      by (rule pool_exhausted) (use nowrap full in \<open>simp_all add: s1_def seed_fields nq_def\<close>)
    then have "malloc s n = Some (0, s1)"
      unfolding malloc_loop nq_def [symmetric] s1_def [symmetric] loop by simp
    then show ?thesis using small full by simp
  qed
qed

section \<open>The hand-built heaps\<close>

lemma demo2_fields:
  "hdr_next (mem demo_heap2) 0x1000 = 0x100000" "hdr_next (mem demo_heap2) 0x100000 = 0x1000"
  "hdr_size (mem demo_heap2) 0x1000 = 0" "hdr_size (mem demo_heap2) 0x100000 = 2"
  "hdr_size (mem demo_heap2) 0x100020 = 3" "hdr_size (mem demo_heap2) 0x100050 = 11"
  by code_simp+

lemma demo2_sel:
  "base demo_heap2 = 0x1000" "freep demo_heap2 = 0x1000" "pool demo_heap2 = 0x100000"
  "POOL_SIZE demo_heap2 = 0x100000" "pool_free_pos demo_heap2 = 0x100"
  by (simp_all add: demo_heap2_def)

lemma demo2_ok: "heap_ok demo_heap2 [0x100000] [0x100020, 0x100050]"
  by (simp add: heap_ok_def layout_ok_def in_pool_def apart_def blk_end_def demo2_fields demo2_sel)


lemma heap0_fields:
  "hdr_next (mem (seed_free_list heap0)) 0x1000 = 0x1000"
  "hdr_size (mem (seed_free_list heap0)) 0x1000 = 0"
  by code_simp+

lemma heap0_sel:
  "base (seed_free_list heap0) = 0x1000" "freep (seed_free_list heap0) = 0x1000"
  "pool (seed_free_list heap0) = 0x100000" "POOL_SIZE (seed_free_list heap0) = 0x100000"
  "pool_free_pos (seed_free_list heap0) = 0" "pool_free_pos heap0 = 0" "POOL_SIZE heap0 = 0x100000"
  by (simp_all add: seed_free_list_def heap0_def boot_def memmgr_init_def DEFAULT_HEAP_SIZE_def)

lemma heap0_ok: "heap_ok (seed_free_list heap0) [] []"
  by (simp add: heap_ok_def layout_ok_def heap0_fields heap0_sel)

lemma demo2_seed: "seed_free_list demo_heap2 = demo_heap2"
  by (simp add: seed_free_list_def demo2_sel)

lemma nq_values: "nquantas_of 100 = 8" "nquantas_of 0x200000 = 0x20001"
  "carve_quanta 8 = 16" "carve_quanta 0x20001 = 0x20001"
  by (simp_all add: nquantas_of_def HDR_def carve_quanta_def)

section \<open>Claims about well-formed heaps\<close>

text \<open>
  Claim C5 (as amended). Let the heap be well formed after the seeding of the free list
  that the first call performs, let no free block have the quanta of the request, and let
  the byte size \<open>pool_free_pos + 16 * max nquantas 16\<close> not wrap. When that size exceeds
  \<^verbatim>\<open>POOL_SIZE\<close>, \<^verbatim>\<open>malloc\<close> returns Null and leaves the seeded state as it is: the cursor,
  the memory and the free list do not change (only the very first call differs from the
  state before it, by the seeding). Otherwise \<^verbatim>\<open>get_mem_from_pool\<close> succeeds and leaves a
  well-formed heap whose free list holds a block of at least the requested quanta (the
  carved region, freed), the search that follows returns a non-Null pointer, and the
  cursor has advanced by exactly \<open>16 * max nquantas 16\<close> bytes.
\<close>

theorem pool_carve:
  assumes "heap_ok (seed_free_list s) bs al"
    and "\<forall>x\<in>set bs. hdr_size (mem (seed_free_list s)) x < nquantas_of n"
    and "unat (pool_free_pos s) + 16 * carve_quanta (nquantas_of n) < 2 ^ 64"
  shows "(unat (POOL_SIZE s) < unat (pool_free_pos s) + 16 * carve_quanta (nquantas_of n) \<longrightarrow>
           malloc s n = Some (0, seed_free_list s)) \<and>
         (unat (pool_free_pos s) + 16 * carve_quanta (nquantas_of n) \<le> unat (POOL_SIZE s) \<longrightarrow>
           (\<exists>s3 bs3 b s' bs'.
              get_mem_from_pool (seed_free_list s) (nquantas_of n) = Some (freep s3, s3) \<and>
              heap_ok s3 bs3 al \<and> (\<exists>f\<in>set bs3. nquantas_of n \<le> hdr_size (mem s3) f) \<and>
              malloc s n = Some (b + 16, s') \<and> b + 16 \<noteq> 0 \<and> heap_ok s' bs' (b # al) \<and>
              unat (pool_free_pos s') =
                unat (pool_free_pos s) + 16 * carve_quanta (nquantas_of n)))"
proof (intro conjI impI)
  assume full: "unat (POOL_SIZE s) < unat (pool_free_pos s) + 16 * carve_quanta (nquantas_of n)"
  from malloc_cases [OF assms(1,3)] full assms(2)
  show "malloc s n = Some (0, seed_free_list s)" by (auto simp: not_le [symmetric])
next
  assume room: "unat (pool_free_pos s) + 16 * carve_quanta (nquantas_of n) \<le> unat (POOL_SIZE s)"
  have room1: "unat (pool_free_pos (seed_free_list s)) + 16 * carve_quanta (nquantas_of n)
      \<le> unat (POOL_SIZE (seed_free_list s))"
    using room by (simp add: seed_fields)
  from carve_ok [OF assms(1) room1] obtain s3 bs3 where
    g: "get_mem_from_pool (seed_free_list s) (nquantas_of n) = Some (freep s3, s3)"
      "heap_ok s3 bs3 al" "\<exists>f\<in>set bs3. nquantas_of n \<le> hdr_size (mem s3) f"
    by blast
  from malloc_cases [OF assms(1,3)] room assms(2)
  obtain b s' bs' where "malloc s n = Some (b + 16, s')" "b + 16 \<noteq> 0" "heap_ok s' bs' (b # al)"
    "unat (pool_free_pos s') = unat (pool_free_pos s) + 16 * carve_quanta (nquantas_of n)"
    by (auto simp: not_le [symmetric] split: if_splits)
  with g show "\<exists>s3 bs3 b s' bs'.
              get_mem_from_pool (seed_free_list s) (nquantas_of n) = Some (freep s3, s3) \<and>
              heap_ok s3 bs3 al \<and> (\<exists>f\<in>set bs3. nquantas_of n \<le> hdr_size (mem s3) f) \<and>
              malloc s n = Some (b + 16, s') \<and> b + 16 \<noteq> 0 \<and> heap_ok s' bs' (b # al) \<and>
              unat (pool_free_pos s') =
                unat (pool_free_pos s) + 16 * carve_quanta (nquantas_of n)"
    by blast
qed

theorem pool_carve_witness:
  "malloc demo_heap2 0x200000 = Some (0, demo_heap2) \<and>
   (\<exists>s3 bs3 b s' bs'.
      get_mem_from_pool demo_heap2 8 = Some (freep s3, s3) \<and>
      heap_ok s3 bs3 [0x100020, 0x100050] \<and> (\<exists>f\<in>set bs3. 8 \<le> hdr_size (mem s3) f) \<and>
      malloc demo_heap2 100 = Some (b + 16, s') \<and> b + 16 \<noteq> 0 \<and>
      heap_ok s' bs' [b, 0x100020, 0x100050] \<and> unat (pool_free_pos s') = 512)"
proof -
  have ok: "heap_ok (seed_free_list demo_heap2) [0x100000] [0x100020, 0x100050]"
    unfolding demo2_seed by (rule demo2_ok)
  have small1: "\<forall>x\<in>set [0x100000]. hdr_size (mem (seed_free_list demo_heap2)) x < nquantas_of 0x200000"
    and small2: "\<forall>x\<in>set [0x100000]. hdr_size (mem (seed_free_list demo_heap2)) x < nquantas_of 100"
    unfolding demo2_seed by (simp_all add: demo2_fields nq_values)
  have nw1: "unat (pool_free_pos demo_heap2) + 16 * carve_quanta (nquantas_of 0x200000) < 2 ^ 64"
    and nw2: "unat (pool_free_pos demo_heap2) + 16 * carve_quanta (nquantas_of 100) < 2 ^ 64"
    and full: "unat (POOL_SIZE demo_heap2)
        < unat (pool_free_pos demo_heap2) + 16 * carve_quanta (nquantas_of 0x200000)"
    and room: "unat (pool_free_pos demo_heap2) + 16 * carve_quanta (nquantas_of 100)
        \<le> unat (POOL_SIZE demo_heap2)"
    by (simp_all add: demo2_sel nq_values)
  from pool_carve [OF ok small1 nw1] full pool_carve [OF ok small2 nw2] room
  show ?thesis unfolding demo2_seed nq_values by (simp add: demo2_sel)
qed

text \<open>
  The claim as stated fails on the fresh pool of 1 MiB. A request of 2 MiB returns Null but
  changes the allocator state: \<^verbatim>\<open>freep\<close> was Null and now points to \<^verbatim>\<open>base\<close>. And a
  request of \<open>2^64 - 1\<close> bytes, larger than the pool, does not return Null: its quanta
  count wraps to 1, and the cursor advances by 256.
\<close>

theorem pool_carve_counterexample:
  "(case malloc heap0 0x200000 of None \<Rightarrow> False
    | Some (p, s') \<Rightarrow> p = 0 \<and> freep heap0 = 0 \<and> freep s' = base heap0 \<and> freep s' \<noteq> freep heap0) \<and>
   (case malloc heap0 (- 1) of None \<Rightarrow> False
    | Some (p, s') \<Rightarrow> p \<noteq> 0 \<and> pool_free_pos heap0 = 0 \<and> pool_free_pos s' = 256)"
  by code_simp

text \<open>
  Claim C7. \<^verbatim>\<open>realloc\<close> does nothing after a failed \<^verbatim>\<open>malloc\<close>: it returns Null and the
  state that \<^verbatim>\<open>malloc\<close> left, without copying and without calling \<^verbatim>\<open>free\<close>. On a
  well-formed heap, for a request whose size does not wrap, a failed \<^verbatim>\<open>malloc\<close> leaves the
  state exactly as it was, so the old block is still allocated and no byte of memory has
  changed.
\<close>

theorem realloc_failure_keeps_block:
  "(malloc s n = Some (0, s') \<longrightarrow> realloc s ptr n = Some (0, s')) \<and>
   (heap_ok s bs al \<and> unat (pool_free_pos s) + 16 * carve_quanta (nquantas_of n) < 2 ^ 64 \<and>
    malloc s n = Some (0, s') \<longrightarrow> s' = s)"
proof (intro conjI impI)
  assume "malloc s n = Some (0, s')"
  then show "realloc s ptr n = Some (0, s')" by (simp add: realloc_def)
next
  assume a: "heap_ok s bs al \<and> unat (pool_free_pos s) + 16 * carve_quanta (nquantas_of n) < 2 ^ 64 \<and>
    malloc s n = Some (0, s')"
  then have sd: "seed_free_list s = s" using heap_seeded by blast
  from a have ok: "heap_ok (seed_free_list s) bs al"
    and nw: "unat (pool_free_pos s) + 16 * carve_quanta (nquantas_of n) < 2 ^ 64"
    and fail: "malloc s n = Some (0, s')"
    unfolding sd by simp_all
  from malloc_cases [OF ok nw] fail show "s' = s" unfolding sd by auto
qed

theorem realloc_failure_keeps_block_witness:
  "realloc demo_heap2 0x100030 0x200000 = Some (0, demo_heap2)"
proof -
  have ok: "heap_ok (seed_free_list demo_heap2) [0x100000] [0x100020, 0x100050]"
    unfolding demo2_seed by (rule demo2_ok)
  have nw: "unat (pool_free_pos demo_heap2) + 16 * carve_quanta (nquantas_of 0x200000) < 2 ^ 64"
    by (simp add: demo2_sel nq_values)
  have "\<not> unat (pool_free_pos demo_heap2) + 16 * carve_quanta (nquantas_of 0x200000)
      \<le> unat (POOL_SIZE demo_heap2)"
    by (simp add: demo2_sel nq_values)
  moreover have "\<not> (\<exists>x\<in>set [0x100000]. nquantas_of 0x200000 \<le> hdr_size (mem demo_heap2) x)"
    by (simp add: demo2_fields nq_values)
  ultimately have fail: "malloc demo_heap2 0x200000 = Some (0, demo_heap2)"
    using malloc_cases [OF ok nw] unfolding demo2_seed by auto
  from realloc_failure_keeps_block [of demo_heap2 "0x200000" demo_heap2 "0x100030"
      "[0x100000]" "[0x100020, 0x100050]"] fail demo2_ok nw
  show ?thesis by blast
qed



text \<open>
  Claim C6. On a well-formed heap, let \<open>A\<close> and \<open>B\<close> be the headers of two outstanding
  blocks with \<open>B\<close> starting where \<open>A\<close> ends. Releasing \<open>A\<close> and then \<open>B\<close> leaves a
  well-formed heap with a single free block \<open>f\<close> that starts at or below \<open>A\<close> and ends at or
  above the end of \<open>B\<close>. A request for the combined usable size, the payload bytes
  \<open>16 * (size A - 1) + 16 * (size B - 1)\<close>, then returns a non-Null pointer and the cursor
  \<^verbatim>\<open>pool_free_pos\<close> is the one before the two releases.
\<close>

theorem coalesce_adjacent:
  assumes ok: "heap_ok s bs al" and A: "A \<in> set al" and B: "B \<in> set al"
    and adj: "blk_end (mem s) A = unat B"
  shows "\<exists>s1 s2 bs2 f b s3 bs3.
      free s (A + 16) = Some s1 \<and> free s1 (B + 16) = Some s2 \<and>
      heap_ok s2 bs2 (filter (\<lambda>x. x \<noteq> B) (filter (\<lambda>x. x \<noteq> A) al)) \<and>
      f \<in> set bs2 \<and> unat f \<le> unat A \<and> blk_end (mem s) B \<le> blk_end (mem s2) f \<and>
      malloc s2 (16 * (hdr_size (mem s) A - 1) + 16 * (hdr_size (mem s) B - 1)) = Some (b + 16, s3) \<and>
      b + 16 \<noteq> 0 \<and> pool_free_pos s3 = pool_free_pos s \<and>
      heap_ok s3 bs3 (b # filter (\<lambda>x. x \<noteq> B) (filter (\<lambda>x. x \<noteq> A) al))"
proof -
  define m where "m = mem s"
  define sa where "sa = hdr_size m A"
  define sb where "sb = hdr_size m B"
  define al1 where "al1 = filter (\<lambda>x. x \<noteq> A) al"
  define al2 where "al2 = filter (\<lambda>x. x \<noteq> B) al1"
  from ok have lay: "layout_ok s" and inp: "\<forall>x\<in>set (bs @ al). in_pool s x"
    unfolding heap_ok_def by auto
  have inA: "in_pool s A" and inB: "in_pool s B" using inp A B by auto
  note bA = in_pool_bounds [OF lay inA] and bB = in_pool_bounds [OF lay inB]
  have ab: "unat A < unat B" using bA(4) adj by simp
  then have AB: "A \<noteq> B" by auto
  then have B1: "B \<in> set al1" using B by (simp add: al1_def)
  \<comment> \<open>releasing the lower block\<close>
  from free_ok [OF ok A] obtain s1 bs1 f1 where
    fr1: "memmgr_free s (A + 16) = Some s1" and ok1: "heap_ok s1 bs1 al1"
    and pos1: "pool_free_pos s1 = pool_free_pos s"
    and f1: "f1 \<in> set bs1" "unat f1 \<le> unat A" "blk_end m A \<le> blk_end (mem s1) f1"
    and keep1: "\<forall>x\<in>set al. x \<noteq> A \<longrightarrow> hdr_size (mem s1) x = hdr_size m x"
    unfolding al1_def m_def by blast
  have sB1: "hdr_size (mem s1) B = sb" using keep1 B AB by (auto simp: sb_def)
  then have eB1: "blk_end (mem s1) B = blk_end m B" by (simp add: blk_end_def sb_def)
  from ok1 have lay1: "layout_ok s1" and inp1: "\<forall>x\<in>set (bs1 @ al1). in_pool s1 x"
    and disj1: "\<forall>x\<in>set al1. x \<notin> set bs1"
    and apt1: "\<forall>x\<in>set (bs1 @ al1). \<forall>y\<in>set (bs1 @ al1). x \<noteq> y \<longrightarrow> apart (mem s1) x y"
    unfolding heap_ok_def by auto
  have "f1 \<noteq> B" using disj1 B1 f1(1) by auto
  then have "apart (mem s1) f1 B" using apt1 f1(1) B1 by auto
  moreover have "unat B < blk_end (mem s1) B" using eB1 bB(4) by (simp add: m_def)
  ultimately have "blk_end (mem s1) f1 \<le> unat B" using f1(2) ab by (auto simp: apart_def)
  then have touch: "blk_end (mem s1) f1 = unat B" using f1(3) adj by (simp add: m_def)
  \<comment> \<open>releasing the upper block\<close>
  from free_ok [OF ok1 B1] obtain s2 bs2 f2 where
    fr2: "memmgr_free s1 (B + 16) = Some s2" and ok2: "heap_ok s2 bs2 al2"
    and pos2: "pool_free_pos s2 = pool_free_pos s1"
    and f2: "f2 \<in> set bs2" "blk_end (mem s1) B \<le> blk_end (mem s2) f2"
    and same: "\<forall>g\<in>set bs1. blk_end (mem s1) g = unat B \<longrightarrow> f2 = g \<and> freep s2 = g"
    unfolding al2_def by blast
  have f21: "f2 = f1" using same f1(1) touch by auto
  have cover: "f1 \<in> set bs2" "unat f1 \<le> unat A" "blk_end m B \<le> blk_end (mem s2) f1"
    using f2 f21 f1(2) eB1 by simp_all
  \<comment> \<open>the request for the combined usable size\<close>
  define k where "k = sa + sb - 2"
  have usa: "0 < unat sa" "0 < unat sb" using inA inB by (simp_all add: in_pool_def sa_def sb_def m_def)
  have total: "unat A + 16 * unat sa + 16 * unat sb = blk_end m B"
    using adj by (simp add: blk_end_def sa_def sb_def m_def)
  then have lt60: "unat sa + unat sb < 2 ^ 60" using bB(2) by (simp add: m_def)
  then have "unat sa + unat sb < 2 ^ LENGTH(64)" by simp
  then have usum: "unat (sa + sb) = unat sa + unat sb" by (simp only: unat_add_lem [THEN iffD1])
  have uk: "unat k = unat sa + unat sb - 2"
    using usa usum by (simp add: k_def unat_sub_if')
  have req: "16 * (hdr_size (mem s) A - 1) + 16 * (hdr_size (mem s) B - 1) = 16 * k"
    by (simp add: k_def sa_def sb_def m_def algebra_simps)
  have nq: "nquantas_of (16 * k) = k + 1"
    by (rule nquantas_of_multiple) (use uk lt60 in simp)
  have "unat k + unat (1 :: ulong) < 2 ^ LENGTH(64)" using uk lt60 by simp
  then have unq: "unat (k + 1) = unat sa + unat sb - 1"
    using uk usa by (simp add: unat_add_lem [THEN iffD1])
  have "16 * (unat sa + unat sb) \<le> 16 * unat (hdr_size (mem s2) f1)"
    using cover(2,3) total by (simp add: blk_end_def)
  then have big: "\<exists>x\<in>set bs2. k + 1 \<le> hdr_size (mem s2) x"
    using cover(1) unq by (auto simp: word_le_nat_alt intro!: bexI [of _ f1])
  have nz: "k + 1 \<noteq> 0" using unq usa by (auto simp: word_unat_eq_iff)
  from alloc_found [OF ok2 nz big] obtain b s3 bs3 where
    "alloc_loop s2 (k + 1) (freep s2) (hdr_next (mem s2) (freep s2)) = Some (b + 16, s3)"
    "b + 16 \<noteq> 0" "heap_ok s3 bs3 (b # al2)" "pool_free_pos s3 = pool_free_pos s2"
    by blast
  then have "malloc s2 (16 * k) = Some (b + 16, s3)"
    unfolding malloc_loop nq heap_seeded [OF ok2] by simp
  then show ?thesis
    using fr1 fr2 ok2 cover \<open>b + 16 \<noteq> 0\<close> \<open>heap_ok s3 bs3 (b # al2)\<close>
      \<open>pool_free_pos s3 = pool_free_pos s2\<close> pos1 pos2
    unfolding req free_def al2_def al1_def m_def by auto
qed

theorem coalesce_adjacent_witness:
  "\<exists>s1 s2 bs2 f b s3 bs3.
      free demo_heap2 (0x100020 + 16) = Some s1 \<and> free s1 (0x100050 + 16) = Some s2 \<and>
      heap_ok s2 bs2 [] \<and>
      f \<in> set bs2 \<and> unat f \<le> unat (0x100020 :: addr) \<and>
      blk_end (mem demo_heap2) 0x100050 \<le> blk_end (mem s2) f \<and>
      malloc s2 (16 * (3 - 1) + 16 * (11 - 1)) = Some (b + 16, s3) \<and>
      b + 16 \<noteq> 0 \<and> pool_free_pos s3 = 0x100 \<and> heap_ok s3 bs3 [b]"
proof -
  have a: "0x100020 \<in> set [0x100020, 0x100050 :: addr]"
    and b: "0x100050 \<in> set [0x100020, 0x100050 :: addr]" by simp_all
  have adj: "blk_end (mem demo_heap2) 0x100020 = unat (0x100050 :: addr)"
    by (simp add: blk_end_def demo2_fields)
  have f: "filter (\<lambda>x. x \<noteq> 0x100050) (filter (\<lambda>x. x \<noteq> 0x100020) [0x100020, 0x100050 :: addr]) = []"
    by simp
  from coalesce_adjacent [OF demo2_ok a b adj] show ?thesis
    unfolding f demo2_fields demo2_sel .
qed


section \<open>Claims settled by the definitions and by evaluation\<close>

text \<open>
  \<^verbatim>\<open>calloc(nmemb, size)\<close> asks \<^verbatim>\<open>malloc\<close> for the product \<open>nmemb * size\<close>
  reduced modulo \<open>2^64\<close>, with no overflow guard: whatever \<^verbatim>\<open>malloc\<close> answers for that
  many bytes is what \<^verbatim>\<open>calloc\<close> answers, and on success exactly that many bytes from the
  returned pointer on are zeroed and no other byte changes, provided the end pointer
  \<^verbatim>\<open>buf + nmemb * size\<close> of the loop does not run past the end of the address space.
\<close>

lemma calloc_product_wraps:
  fixes nmemb sz :: ulong
  defines "t \<equiv> (unat nmemb * unat sz) mod 2 ^ 64"
  shows "(malloc s (of_nat t) = None \<longrightarrow> calloc s nmemb sz = None) \<and>
    (\<forall>s1. malloc s (of_nat t) = Some (0, s1) \<longrightarrow> calloc s nmemb sz = Some (0, s1)) \<and>
    (\<forall>buf s1. malloc s (of_nat t) = Some (buf, s1) \<and> buf \<noteq> 0 \<and> unat buf + t < 2 ^ 64 \<longrightarrow>
       calloc s nmemb sz = Some (buf, s1\<lparr>mem := zero_range (mem s1) buf t\<rparr>))"
proof -
  have t: "unat (nmemb * sz) = t" by (simp add: t_def unat_word_ariths)
  then have w: "of_nat t = nmemb * sz" by (metis of_nat_unat ucast_id)
  show ?thesis
    unfolding w using t by (auto simp: calloc_def zero_loop_zero_range)
qed

text \<open>
  An instance: \<open>2^61 + 1\<close> members of 8 bytes. The product \<open>2^64 + 8\<close> wraps to 8, so the
  block handed out is the one \<^verbatim>\<open>malloc(8)\<close> gives and 8 bytes of it are zeroed.
\<close>

lemma calloc_product_wraps_demo:
  "malloc heap0 8 = Some (0x1000F0, snd (the (malloc heap0 8))) \<and>
   calloc heap0 0x2000000000000001 8 =
     Some (0x1000F0, (snd (the (malloc heap0 8)))
       \<lparr>mem := zero_range (mem (snd (the (malloc heap0 8)))) 0x1000F0 8\<rparr>)"
proof -
  have e: "(unat (0x2000000000000001 :: ulong) * unat (8 :: ulong)) mod 2 ^ 64 = 8" by simp
  have "fst (the (malloc heap0 8)) = 0x1000F0 \<and> malloc heap0 8 \<noteq> None" by code_simp
  then have m: "malloc heap0 8 = Some (0x1000F0, snd (the (malloc heap0 8)))" by auto
  have h: "malloc heap0 (of_nat 8) = Some (0x1000F0, snd (the (malloc heap0 8))) \<and>
      (0x1000F0 :: addr) \<noteq> 0 \<and> unat (0x1000F0 :: addr) + 8 < 2 ^ 64"
    using m by simp
  from calloc_product_wraps [of heap0 "0x2000000000000001" 8, unfolded e] h m show ?thesis by blast
qed

text \<open>
  When the end pointer does run past the end of the address space it wraps below \<open>buf\<close>,
  the loop condition is false at once, and no byte is zeroed.
\<close>

lemma calloc_end_wraps:
  fixes nmemb sz :: ulong
  assumes "malloc s (nmemb * sz) = Some (buf, s1)" and "buf \<noteq> 0"
    and "2 ^ 64 \<le> unat buf + unat (nmemb * sz)"
  shows "calloc s nmemb sz = Some (buf, s1)"
proof -
  have "unat (buf + nmemb * sz) = unat buf + unat (nmemb * sz) - 2 ^ 64"
    using assms(3) by (simp add: unat_plus_if')
  moreover have "unat (nmemb * sz) < 2 ^ 64" using unsigned_less [of "nmemb * sz"] by simp
  ultimately have "\<not> buf < buf + nmemb * sz" using assms(3) by (simp add: word_less_nat_alt)
  then have "zero_loop (mem s1) buf (buf + nmemb * sz) = mem s1"
    by (subst zero_loop.simps) simp
  then show ?thesis using assms(1,2) by (simp add: calloc_def)
qed

text \<open>
  Claim C10 (the code differs). \<^verbatim>\<open>calloc\<close> does not zero \<open>(nmemb * size) mod 2^64\<close> bytes
  for every \<open>nmemb\<close> and \<open>size\<close>. On the fresh pool, with the byte \<open>0xAA\<close> at offset 16 of
  the pool, \<^verbatim>\<open>calloc(1, 2^64 - 16)\<close> returns the non-Null pointer to that byte: the size
  computations of \<^verbatim>\<open>malloc\<close> wrap, so a block is handed out while the cursor stays at 0.
  The end pointer \<^verbatim>\<open>buf + nmemb * size\<close> of the zeroing loop wraps to \<open>buf - 16\<close>, the loop
  does not run, and the byte is still \<open>0xAA\<close>: nothing has been zeroed.
\<close>

theorem calloc_zeroes_nothing:
  "(case calloc (poke heap0 0x100010 0xAA) 1 (- 16) of None \<Rightarrow> False
    | Some (p, s') \<Rightarrow> p = 0x100010 \<and> mem s' p = 0xAA \<and> pool_free_pos s' = 0)"
  by code_simp

text \<open>
  Claim C3. \<^verbatim>\<open>main\<close> runs \<^verbatim>\<open>mmap\<close>, \<^verbatim>\<open>memmgr_init\<close>, \<^verbatim>\<open>prctl\<close> and \<^verbatim>\<open>realmain\<close> in
  that order, each at most once (the steps taken are a prefix of that list). When \<^verbatim>\<open>mmap\<close>
  fails the process exits with \<^verbatim>\<open>MMAP_FAILED_ERROR\<close> and \<^verbatim>\<open>realmain\<close> is not run; when
  \<^verbatim>\<open>prctl\<close> fails it exits with \<^verbatim>\<open>SECCOMP_ERROR\<close>, a different status, and \<^verbatim>\<open>realmain\<close>
  is not run; when both succeed \<^verbatim>\<open>main\<close> returns the status of \<^verbatim>\<open>realmain\<close> unchanged.
\<close>

theorem main_sequence:
  "prefix (fst (main env s0)) [Mmap, Memmgr_init, Prctl, Realmain] \<and>
   (mmap_result env = MAP_FAILED \<longrightarrow>
      snd (main env s0) = Exit MMAP_FAILED_ERROR \<and> Realmain \<notin> set (fst (main env s0))) \<and>
   (mmap_result env \<noteq> MAP_FAILED \<and> prctl_result env < 0 \<longrightarrow>
      snd (main env s0) = Exit SECCOMP_ERROR \<and> Realmain \<notin> set (fst (main env s0))) \<and>
   (mmap_result env \<noteq> MAP_FAILED \<and> \<not> prctl_result env < 0 \<longrightarrow>
      main env s0 = ([Mmap, Memmgr_init, Prctl, Realmain],
        Return (realmain env (memmgr_init s0 (mmap_result env) DEFAULT_HEAP_SIZE)))) \<and>
   MMAP_FAILED_ERROR \<noteq> SECCOMP_ERROR"
  by (simp add: main_def Let_def MMAP_FAILED_ERROR_def SECCOMP_ERROR_def)

theorem main_sequence_witness:
  "snd (main \<lparr>mmap_result = MAP_FAILED, prctl_result = 0, realmain = (\<lambda>_. 42)\<rparr> boot) = Exit 18 \<and>
   snd (main \<lparr>mmap_result = 0x100000, prctl_result = - 1, realmain = (\<lambda>_. 42)\<rparr> boot) = Exit 17 \<and>
   snd (main \<lparr>mmap_result = 0x100000, prctl_result = 0, realmain = (\<lambda>_. 42)\<rparr> boot) = Return 42"
  using main_sequence [of "\<lparr>mmap_result = MAP_FAILED, prctl_result = 0, realmain = (\<lambda>_. 42)\<rparr>" boot]
    main_sequence [of "\<lparr>mmap_result = 0x100000, prctl_result = - 1, realmain = (\<lambda>_. 42)\<rparr>" boot]
    main_sequence [of "\<lparr>mmap_result = 0x100000, prctl_result = 0, realmain = (\<lambda>_. 42)\<rparr>" boot]
  by (simp add: MAP_FAILED_def MMAP_FAILED_ERROR_def SECCOMP_ERROR_def)

text \<open>
  Claim C2 (the code differs). \<^verbatim>\<open>memmgr_get_block_size\<close> returns the \<^verbatim>\<open>size\<close> field of the
  header, which counts quanta of 16 bytes and includes the header itself; it is not a
  count of payload bytes. After \<^verbatim>\<open>malloc(100)\<close> on the fresh pool it answers 8, less than
  the 100 bytes requested.
\<close>

theorem block_size_counts_quanta:
  "(case malloc heap0 100 of None \<Rightarrow> False
    | Some (p, s) \<Rightarrow> p \<noteq> 0 \<and> memmgr_get_block_size s p = 8 \<and> memmgr_get_block_size s p < 100)"
  by code_simp

text \<open>
  Claim C1 (the code differs). \<^verbatim>\<open>realloc\<close> takes the quanta count that
  \<^verbatim>\<open>memmgr_get_block_size\<close> returns for a byte count, so it copies
  \<open>min (quanta of the old block) newSize\<close> bytes. A block from \<^verbatim>\<open>malloc(100)\<close> has 8 quanta:
  growing it to 200 bytes copies the bytes at offsets 0 to 7 and loses the byte at offset 8.
\<close>

theorem realloc_copies_quanta_count:
  "(case malloc heap0 100 of None \<Rightarrow> False
    | Some (p, s1) \<Rightarrow>
        (let s2 = poke (poke s1 (p + 7) 0x11) (p + 8) 0x22 in
         case realloc s2 p 200 of None \<Rightarrow> False
         | Some (q, s3) \<Rightarrow>
             p \<noteq> 0 \<and> q \<noteq> 0 \<and> mem s2 (p + 7) = 0x11 \<and> mem s2 (p + 8) = 0x22 \<and>
             mem s3 (q + 7) = 0x11 \<and> mem s3 (q + 8) = 0))"
  by code_simp

text \<open>
  Claim C4 (the code differs). The quanta computation
  \<^verbatim>\<open>(nbytes + sizeof(mem_header_t) - 1) / sizeof(mem_header_t) + 1\<close> wraps for the 15
  largest request sizes, so the quanta count does not cover header plus payload for every
  request. For \<open>nbytes = 2^64 - 1\<close> it is 1 quantum, the header alone, and
  \<^verbatim>\<open>malloc(2^64 - 1)\<close> on the fresh pool returns a non-Null pointer to a block of 1 quantum:
  the payload is empty, the pointer is the address \<^verbatim>\<open>pool + pool_free_pos\<close> at which the
  next carve puts a header. For requests that do not wrap, the conversion and the search
  are as lemma \<open>alloc_search\<close> states.
\<close>

theorem nquantas_wraps:
  "nquantas_of (- 1) = 1 \<and> \<not> unat (- 1 :: ulong) + 16 \<le> 16 * unat (nquantas_of (- 1)) \<and>
   (case malloc heap0 (- 1) of None \<Rightarrow> False
    | Some (p, s') \<Rightarrow> p = 0x100100 \<and> hdr_size (mem s') (p - HDR) = 1 \<and>
        pool_free_pos s' = 256 \<and> p = pool s' + pool_free_pos s')"
proof -
  have "nquantas_of (- 1) = 1" by (simp add: nquantas_of_def HDR_def)
  moreover from this have "\<not> unat (- 1 :: ulong) + 16 \<le> 16 * unat (nquantas_of (- 1))"
    by (simp add: unsigned_minus_1_eq_mask mask_eq_exp_minus_1)
  moreover have "(case malloc heap0 (- 1) of None \<Rightarrow> False
    | Some (p, s') \<Rightarrow> p = 0x100100 \<and> hdr_size (mem s') (p - HDR) = 1 \<and>
        pool_free_pos s' = 256 \<and> p = pool s' + pool_free_pos s')"
    by code_simp
  ultimately show ?thesis by blast
qed

text \<open>
  Claim C8 (the code differs). The quanta computation of \<^verbatim>\<open>memmgr_alloc\<close> and the size
  computation of \<^verbatim>\<open>get_mem_from_pool\<close> wrap: \<^verbatim>\<open>malloc(2^64 - 16)\<close> on the fresh pool asks for
  \<open>2^60\<close> quanta, whose byte size wraps to 0, so a block with header at the start of the
  pool is handed out while the cursor stays at 0. The next \<^verbatim>\<open>malloc(10)\<close> carves the same
  address again and leaves it in the free list: the header of the outstanding first block
  is the successor of \<^verbatim>\<open>freep\<close> in the free list.
\<close>

theorem allocated_block_in_free_list:
  "(case malloc heap0 (- 16) of None \<Rightarrow> False
    | Some (p1, s1) \<Rightarrow>
        (case malloc s1 10 of None \<Rightarrow> False
         | Some (p2, s2) \<Rightarrow>
             p1 \<noteq> 0 \<and> p2 \<noteq> 0 \<and> pool_free_pos s1 = 0 \<and>
             freep s2 = base s2 \<and> hdr_next (mem s2) (freep s2) = p1 - HDR \<and>
             hdr_size (mem s2) (p1 - HDR) = 14))"
  by code_simp

end
